theory Spec2Isabelle
  imports Complex_Main
begin

section \<open>Mousygons: fading points that follow the pointer\<close>

text \<open>
  A shallow embedding of \<^verbatim>\<open>src/index.ts\<close>. An object with fields is a record, a method
  that mutates \<^verbatim>\<open>this\<close> returns the updated record, and \<^verbatim>\<open>Math.random()\<close> is the list of
  the values it returns, consumed from the front.

  A TypeScript \<^verbatim>\<open>number\<close> is a binary64 value, modelled as the \<^typ>\<open>real\<close> it denotes
  (infinities and NaN are not modelled). Each operation of the source gives the exact
  result rounded to binary64, \<open>fl\<close> below. The rounding is written out in the two random
  helpers, in the fade accumulation of \<^verbatim>\<open>Point.update\<close>, in the distances and in the drawing
  of a point. It is left out where the operands are the size of a point, the constants of
  the class and the coordinates of the pointer: for the sizes that occur and for integer
  pixel coordinates the exact result is a binary64 value, as shown after the properties of
  the random helpers.
\<close>

subsection \<open>Rounding to binary64\<close>

text \<open>
  Round to nearest, ties to even: \<open>rne\<close> rounds to an integer, \<open>expo\<close> is the binary
  exponent (that of the subnormal numbers below \<open>2 powr -1022\<close>), \<open>ulp\<close> the distance of
  the binary64 values at that exponent, with 53 significant bits.
\<close>

definition rne :: "real \<Rightarrow> int" where
  "rne x =
     (let n = \<lfloor>x\<rfloor>; d = x - of_int n
      in if d < 1 / 2 then n else if 1 / 2 < d then n + 1 else if even n then n else n + 1)"

definition expo :: "real \<Rightarrow> int" where
  "expo x = max \<lfloor>log 2 \<bar>x\<bar>\<rfloor> (- 1022)"

definition ulp :: "real \<Rightarrow> real" where
  "ulp x = 2 powr (of_int (expo x) - 52)"

definition fl :: "real \<Rightarrow> real" where
  "fl x = (if x = 0 then 0 else of_int (rne (x / ulp x)) * ulp x)"

subsection \<open>Point\<close>

record Point =
  Point_x :: real
  Point_y :: real
  dimensions :: real
  alpha :: real
  alphaSpeed :: real
  satisfied :: bool

definition ALPHA_THRESHOLD :: real where
  "ALPHA_THRESHOLD = 255"

text \<open>The constructor: the fade value starts at 0 and the point is not satisfied.\<close>

definition new_Point :: "real \<Rightarrow> real \<Rightarrow> real \<Rightarrow> real \<Rightarrow> Point" where
  "new_Point x y dims speed =
     \<lparr>Point_x = x, Point_y = y, dimensions = dims, alpha = 0, alphaSpeed = speed,
      satisfied = False\<rparr>"

definition getX :: "Point \<Rightarrow> real" where
  "getX p = Point_x p"

definition getY :: "Point \<Rightarrow> real" where
  "getY p = Point_y p"

definition getDimensions :: "Point \<Rightarrow> real" where
  "getDimensions p = dimensions p"

definition isSatisfied :: "Point \<Rightarrow> bool" where
  "isSatisfied p = satisfied p"

definition getAlpha :: "Point \<Rightarrow> real" where
  "getAlpha p = alpha p"

definition distanceToCoords :: "Point \<Rightarrow> real \<Rightarrow> real \<Rightarrow> real" where
  "distanceToCoords p x y =
     (let a = fl (Point_x p - x); b = fl (Point_y p - y)
      in fl (sqrt (fl (fl (a * a) + fl (b * b)))))"

definition distanceTo :: "Point \<Rightarrow> Point \<Rightarrow> real" where
  "distanceTo p point =
     (let a = fl (Point_x p - Point_x point); b = fl (Point_y p - Point_y point)
      in fl (sqrt (fl (fl (a * a) + fl (b * b)))))"

text \<open>\<^verbatim>\<open>Point.update\<close>: the fade value grows only while the point is not satisfied.\<close>

definition Point_update :: "Point \<Rightarrow> Point" where
  "Point_update p =
     (if \<not> satisfied p then
        (let p1 = p\<lparr>alpha := fl (alpha p + alphaSpeed p)\<rparr>
         in if alpha p1 \<ge> ALPHA_THRESHOLD then p1\<lparr>satisfied := True\<rparr> else p1)
      else p)"

subsection \<open>Random numbers\<close>

text \<open>
  \<^verbatim>\<open>Math.random()\<close> is an input of the program. A run reads its values one after the
  other, so a function that draws them takes the list of the values still to come and
  returns the rest; it yields \<open>None\<close> when the list ends before the function has returned
  (for a loop: it is still running after all the given values).
  The two helpers take the value drawn as their first argument. The values handed to the
  runs evaluated below are binary64 values of \<open>[0, 1)\<close>: dyadic fractions, the largest being
  \<open>1 - 1 / 2 ^ 53\<close>.
\<close>

type_synonym random = "real list"

definition randomIntBetween :: "real \<Rightarrow> real \<Rightarrow> real \<Rightarrow> real" where
  "randomIntBetween r mn mx = of_int \<lfloor>fl (fl (r * fl (fl (mx - mn) + 1)) + mn)\<rfloor>"

definition randomFloatBetween :: "real \<Rightarrow> real \<Rightarrow> real \<Rightarrow> real" where
  "randomFloatBetween r mn mx = fl (fl (r * fl (mx - mn)) + mn)"

subsection \<open>hexToRgb\<close>

record RGB =
  rgb_r :: real
  rgb_g :: real
  rgb_b :: real

text \<open>The character class \<^verbatim>\<open>[a-f\d]\<close> under the flag \<^verbatim>\<open>i\<close>.\<close>

definition hexClass :: "char \<Rightarrow> bool" where
  "hexClass c = (c \<in> set ''0123456789abcdefABCDEF'')"

text \<open>One group \<^verbatim>\<open>([a-f\d]{2})\<close>: the two characters captured and the input left.\<close>

fun hexGroup :: "string \<Rightarrow> (string \<times> string) option" where
  "hexGroup (a # b # rest) = (if hexClass a \<and> hexClass b then Some ([a, b], rest) else None)"
| "hexGroup _ = None"

text \<open>The three groups followed by \<^verbatim>\<open>$\<close>, the end of the input.\<close>

definition hexGroups :: "string \<Rightarrow> (string \<times> string \<times> string) option" where
  "hexGroups s =
     (case hexGroup s of
        None \<Rightarrow> None
      | Some (g1, s1) \<Rightarrow>
          (case hexGroup s1 of
             None \<Rightarrow> None
           | Some (g2, s2) \<Rightarrow>
               (case hexGroup s2 of
                  None \<Rightarrow> None
                | Some (g3, s3) \<Rightarrow> if s3 = [] then Some (g1, g2, g3) else None)))"

text \<open>
  \<^verbatim>\<open>/^#?([a-f\d]{2})([a-f\d]{2})([a-f\d]{2})$/i.exec(hex)\<close>: the optional \<^verbatim>\<open>#\<close> is greedy,
  so the match is tried with the \<^verbatim>\<open>#\<close> consumed first and without it after that.
\<close>

definition regex_exec :: "string \<Rightarrow> (string \<times> string \<times> string) option" where
  "regex_exec hex =
     (case hex of
        [] \<Rightarrow> hexGroups hex
      | c # rest \<Rightarrow>
          if c = CHR ''#'' then
            (case hexGroups rest of Some g \<Rightarrow> Some g | None \<Rightarrow> hexGroups hex)
          else hexGroups hex)"

definition hexDigitValue :: "char \<Rightarrow> real" where
  "hexDigitValue c =
     (case map_of
        [(CHR ''0'', 0), (CHR ''1'', 1), (CHR ''2'', 2), (CHR ''3'', 3), (CHR ''4'', 4),
         (CHR ''5'', 5), (CHR ''6'', 6), (CHR ''7'', 7), (CHR ''8'', 8), (CHR ''9'', 9),
         (CHR ''a'', 10), (CHR ''b'', 11), (CHR ''c'', 12), (CHR ''d'', 13), (CHR ''e'', 14),
         (CHR ''f'', 15), (CHR ''A'', 10), (CHR ''B'', 11), (CHR ''C'', 12), (CHR ''D'', 13),
         (CHR ''E'', 14), (CHR ''F'', 15)] c of
        Some v \<Rightarrow> v
      | None \<Rightarrow> 0)"

text \<open>
  \<^verbatim>\<open>parseInt(s, 16)\<close> on the longest prefix of hexadecimal digits. (On a string with no
  such prefix JavaScript gives NaN; the groups of the pattern are two digits each, so
  \<^verbatim>\<open>hexToRgb\<close> never asks for it.)
\<close>

definition parseInt16 :: "string \<Rightarrow> real" where
  "parseInt16 s = foldl (\<lambda>acc c. acc * 16 + hexDigitValue c) 0 (takeWhile hexClass s)"

definition hexToRgb :: "string \<Rightarrow> RGB option" where
  "hexToRgb hex =
     (case regex_exec hex of
        Some (g1, g2, g3) \<Rightarrow>
          Some \<lparr>rgb_r = parseInt16 g1, rgb_g = parseInt16 g2, rgb_b = parseInt16 g3\<rparr>
      | None \<Rightarrow> None)"

text \<open>
  The specification's wording of the accepted inputs, for comparison with the pattern of
  the source: exactly six hexadecimal digits, optionally prefixed with \<^verbatim>\<open>#\<close>.
\<close>

definition spec_hexDigit :: "char \<Rightarrow> bool" where
  "spec_hexDigit c =
     ((CHR ''0'' = c \<or> CHR ''1'' = c \<or> CHR ''2'' = c \<or> CHR ''3'' = c \<or> CHR ''4'' = c
       \<or> CHR ''5'' = c \<or> CHR ''6'' = c \<or> CHR ''7'' = c \<or> CHR ''8'' = c \<or> CHR ''9'' = c)
      \<or> (CHR ''a'' = c \<or> CHR ''b'' = c \<or> CHR ''c'' = c \<or> CHR ''d'' = c \<or> CHR ''e'' = c
          \<or> CHR ''f'' = c)
      \<or> (CHR ''A'' = c \<or> CHR ''B'' = c \<or> CHR ''C'' = c \<or> CHR ''D'' = c \<or> CHR ''E'' = c
          \<or> CHR ''F'' = c))"

definition spec_strictHex :: "string \<Rightarrow> bool" where
  "spec_strictHex s =
     (let body = (case s of [] \<Rightarrow> s | c # rest \<Rightarrow> if c = CHR ''#'' then rest else s)
      in length body = 6 \<and> list_all spec_hexDigit body)"

subsection \<open>The effect controller\<close>

record MousePosition =
  mouse_x :: real
  mouse_y :: real

record MouseEvent =
  pageX :: real
  pageY :: real

text \<open>The style object handed to \<^verbatim>\<open>css\<close>: the placement requested for the overlay.\<close>

record CSS =
  css_left :: real
  css_top :: real
  css_position :: string
  css_pointerEvents :: string

text \<open>The calls made on the 2d drawing context, in order.\<close>

datatype context_call =
    ClearRect real real real real
  | FillStyle real real real real
  | BeginPath
  | FillRect real real real real
  | Stroke

text \<open>
  The controller. \<open>mouseCanvas\<close> is \<open>None\<close> while the field is \<^verbatim>\<open>null\<close>; the overlay element
  is the style last requested for it (\<open>None\<close> before the first request). \<open>canvas\<close> is the
  list of the calls received by the drawing context of the canvas that the constructor creates.
\<close>

record Mousygons =
  mousePosition :: MousePosition
  mouseCanvas :: "CSS option option"
  canvas :: "context_call list"
  points :: "Point list"

definition MAX_POINTS_ALIVE :: nat where
  "MAX_POINTS_ALIVE = 6"

definition MOUSE_WIDTH :: real where
  "MOUSE_WIDTH = 12"

definition MOUSE_HEIGHT :: real where
  "MOUSE_HEIGHT = 20"

definition CANVAS_WIDTH :: real where
  "CANVAS_WIDTH = 64"

definition CANVAS_HEIGHT :: real where
  "CANVAS_HEIGHT = 64"

definition FADE_MIN :: real where
  "FADE_MIN = 0.25"

definition FADE_MAX :: real where
  "FADE_MAX = 1.75"

definition createMouseCanvas :: "Mousygons \<Rightarrow> Mousygons" where
  "createMouseCanvas this = this\<lparr>mouseCanvas := Some None, canvas := []\<rparr>"

definition updateMouseCanvas :: "Mousygons \<Rightarrow> Mousygons" where
  "updateMouseCanvas this =
     (case mouseCanvas this of
        None \<Rightarrow> this
      | Some element \<Rightarrow>
          this\<lparr>mouseCanvas := Some (Some
            \<lparr>css_left = mouse_x (mousePosition this) - (CANVAS_WIDTH / 2) + (MOUSE_WIDTH / 2),
             css_top = mouse_y (mousePosition this) - (CANVAS_HEIGHT / 2) + (MOUSE_HEIGHT / 2),
             css_position = ''absolute'',
             css_pointerEvents = ''none''\<rparr>)\<rparr>)"

definition mouseMovementHandler :: "Mousygons \<Rightarrow> MouseEvent \<Rightarrow> Mousygons" where
  "mouseMovementHandler this event =
     updateMouseCanvas
       (this\<lparr>mousePosition := \<lparr>mouse_x = pageX event, mouse_y = pageY event\<rparr>\<rparr>)"

definition new_Mousygons :: Mousygons where
  "new_Mousygons =
     updateMouseCanvas (createMouseCanvas
       \<lparr>mousePosition = \<lparr>mouse_x = 0, mouse_y = 0\<rparr>, mouseCanvas = None, canvas = [],
        points = []\<rparr>)"

definition clearCanvas :: "Mousygons \<Rightarrow> Mousygons" where
  "clearCanvas this = this\<lparr>canvas := canvas this @ [ClearRect 0 0 CANVAS_WIDTH CANVAS_HEIGHT]\<rparr>"

text \<open>
  The search for a conflict in \<^verbatim>\<open>createPoint\<close>: \<^verbatim>\<open>_.forEach\<close> over the points, left as soon
  as one point is too close.
\<close>

fun positionConflict :: "Point list \<Rightarrow> real \<Rightarrow> real \<Rightarrow> real \<Rightarrow> bool" where
  "positionConflict [] positionX positionY dims = False"
| "positionConflict (point # rest) positionX positionY dims =
     (if distanceToCoords point positionX positionY \<le> dims * 6 then True
      else positionConflict rest positionX positionY dims)"

text \<open>
  \<^verbatim>\<open>createPoint\<close>: the loop with its flag, and after the loop the return of
  \<^verbatim>\<open>new Point(0, 0, 0, 0)\<close>. Each round draws the size and the two coordinates; an accepted
  round draws the fade increment.
\<close>

function createPoint_loop :: "bool \<Rightarrow> Mousygons \<Rightarrow> random \<Rightarrow> (Point \<times> random) option" where
  "createPoint_loop foundPosition this rs =
     (if \<not> foundPosition then
        (case rs of
           r1 # r2 # r3 # rest \<Rightarrow>
             (let dims = randomIntBetween r1 2 4;
                  positionX = randomIntBetween r2 dims (CANVAS_WIDTH - (dims / 2));
                  positionY = randomIntBetween r3 dims (CANVAS_HEIGHT - (dims / 2));
                  conflict = positionConflict (points this) positionX positionY dims;
                  found = \<not> conflict
              in if found then
                   (case rest of
                      r4 # rest' \<Rightarrow>
                        Some (new_Point positionX positionY dims
                                (randomFloatBetween r4 FADE_MIN FADE_MAX), rest')
                    | [] \<Rightarrow> None)
                 else createPoint_loop found this rest)
         | _ \<Rightarrow> None)
      else Some (new_Point 0 0 0 0, rs))"
  by pat_completeness auto
termination
  by (relation "measure (\<lambda>(foundPosition, this, rs). length rs)") auto

definition createPoint :: "Mousygons \<Rightarrow> random \<Rightarrow> (Point \<times> random) option" where
  "createPoint this rs = createPoint_loop False this rs"

function fillPoints :: "Mousygons \<Rightarrow> random \<Rightarrow> (Mousygons \<times> random) option" where
  "fillPoints this rs =
     (if length (points this) < MAX_POINTS_ALIVE then
        (case createPoint this rs of
           None \<Rightarrow> None
         | Some (point, rs') \<Rightarrow> fillPoints (this\<lparr>points := points this @ [point]\<rparr>) rs')
      else Some (this, rs))"
  by pat_completeness auto
termination
  by (relation "measure (\<lambda>(this, rs). MAX_POINTS_ALIVE - length (points this))") auto

text \<open>
  \<^verbatim>\<open>updatePoints\<close>: the loop over the index \<open>i\<close>, on the array as it is at that moment;
  \<^verbatim>\<open>splice(i, 1)\<close> takes the element at \<open>i\<close> out and the index goes on to \<open>i + 1\<close>.
\<close>

definition splice1 :: "nat \<Rightarrow> 'a list \<Rightarrow> 'a list" where
  "splice1 i xs = take i xs @ drop (Suc i) xs"

function updatePoints_loop :: "nat \<Rightarrow> Point list \<Rightarrow> Point list" where
  "updatePoints_loop i pts =
     (if i < length pts then
        (let point = Point_update (pts ! i);
             pts1 = pts[i := point]
         in if isSatisfied point then updatePoints_loop (Suc i) (splice1 i pts1)
            else updatePoints_loop (Suc i) pts1)
      else pts)"
  by pat_completeness auto
termination
  by (relation "measure (\<lambda>(i, pts). length pts - i)") (auto simp: splice1_def)

definition updatePoints :: "Mousygons \<Rightarrow> Mousygons" where
  "updatePoints this = this\<lparr>points := updatePoints_loop 0 (points this)\<rparr>"

text \<open>
  \<^verbatim>\<open>drawPoints\<close>: the four calls made for one point. The non-null assertion on the result
  of \<^verbatim>\<open>hexToRgb\<close> fails with a TypeError on \<^verbatim>\<open>null\<close>, here \<open>None\<close>.
\<close>

definition drawPoint :: "Point \<Rightarrow> context_call list option" where
  "drawPoint point =
     (case hexToRgb ''#00bf9b'' of
        None \<Rightarrow> None
      | Some rgb \<Rightarrow>
          Some [FillStyle (rgb_r rgb) (rgb_g rgb) (rgb_b rgb) (fl (getAlpha point / 255)),
                BeginPath,
                FillRect (fl (getX point - fl (getDimensions point / 2)))
                         (fl (getY point - fl (getDimensions point / 2)))
                         (getDimensions point) (getDimensions point),
                Stroke])"

fun drawPoints_loop :: "Point list \<Rightarrow> context_call list \<Rightarrow> context_call list option" where
  "drawPoints_loop [] ctx = Some ctx"
| "drawPoints_loop (point # rest) ctx =
     (case drawPoint point of
        None \<Rightarrow> None
      | Some calls \<Rightarrow> drawPoints_loop rest (ctx @ calls))"

definition drawPoints :: "Mousygons \<Rightarrow> Mousygons option" where
  "drawPoints this =
     (case drawPoints_loop (points this) (canvas this) of
        None \<Rightarrow> None
      | Some ctx \<Rightarrow> Some (this\<lparr>canvas := ctx\<rparr>))"

text \<open>\<^verbatim>\<open>Mousygons.update\<close>, one tick of the timer.\<close>

definition Mousygons_update :: "Mousygons \<Rightarrow> random \<Rightarrow> (Mousygons \<times> random) option" where
  "Mousygons_update this rs =
     (case fillPoints (clearCanvas this) rs of
        None \<Rightarrow> None
      | Some (this1, rs') \<Rightarrow>
          (case drawPoints (updatePoints this1) of
             None \<Rightarrow> None
           | Some this2 \<Rightarrow> Some (this2, rs')))"

text \<open>
  \<^verbatim>\<open>start\<close> hands \<^verbatim>\<open>update\<close> to the timer; \<open>start n\<close> is the state after the first \<open>n\<close> ticks.
\<close>

fun start :: "nat \<Rightarrow> Mousygons \<Rightarrow> random \<Rightarrow> (Mousygons \<times> random) option" where
  "start 0 this rs = Some (this, rs)"
| "start (Suc n) this rs =
     (case Mousygons_update this rs of
        None \<Rightarrow> None
      | Some (this1, rs1) \<Rightarrow> start n this1 rs1)"

text \<open>
  The separation that the placement search checks, as a property of the collection:
  each point is farther than six times its own size from every point before it.
\<close>

definition separated :: "Point list \<Rightarrow> bool" where
  "separated pts =
     sorted_wrt (\<lambda>q p. distanceToCoords q (Point_x p) (Point_y p) > dimensions p * 6) pts"

declare createPoint_loop.simps [simp del]
declare fillPoints.simps [simp del]
declare updatePoints_loop.simps [simp del]

subsection \<open>Properties of the rounding\<close>

lemma rne_of_int [simp]: "rne (of_int n) = n"
  by (simp add: rne_def)

lemma rne_cases:
  "rne x = \<lfloor>x\<rfloor> \<and> x - of_int \<lfloor>x\<rfloor> \<le> 1 / 2
   \<or> rne x = \<lfloor>x\<rfloor> + 1 \<and> 1 / 2 \<le> x - of_int \<lfloor>x\<rfloor>"
proof -
  define n where "n = \<lfloor>x\<rfloor>"
  define d where "d = x - of_int n"
  have r: "rne x = (if d < 1 / 2 then n else if 1 / 2 < d then n + 1
                   else if even n then n else n + 1)"
    unfolding rne_def Let_def n_def d_def ..
  have "rne x = n \<and> d \<le> 1 / 2 \<or> rne x = n + 1 \<and> 1 / 2 \<le> d"
    unfolding r by (cases "d < 1 / 2"; cases "1 / 2 < d"; cases "even n"; simp)
  then show ?thesis unfolding d_def n_def .
qed

lemma rne_error: "\<bar>of_int (rne x) - x\<bar> \<le> 1 / 2"
  using rne_cases [of x] by (elim disjE conjE; simp; linarith)

lemma rne_mono: "x \<le> y \<Longrightarrow> rne x \<le> rne y"
proof -
  assume xy: "x \<le> y"
  have fl: "\<lfloor>x\<rfloor> \<le> \<lfloor>y\<rfloor>" using xy by (rule floor_mono)
  show ?thesis
  proof (cases "\<lfloor>x\<rfloor> = \<lfloor>y\<rfloor>")
    case True
    have d: "x - of_int \<lfloor>x\<rfloor> \<le> y - of_int \<lfloor>y\<rfloor>" using xy True by simp
    show ?thesis
    proof (cases "rne x = \<lfloor>x\<rfloor>")
      case True
      then show ?thesis using rne_cases [of y] \<open>\<lfloor>x\<rfloor> = \<lfloor>y\<rfloor>\<close> by auto
    next
      case False
      then have hx: "\<not> x - of_int \<lfloor>x\<rfloor> < 1 / 2"
        by (auto simp: rne_def Let_def)
      have "\<not> (1 / 2 < x - of_int \<lfloor>x\<rfloor>) \<Longrightarrow> odd \<lfloor>x\<rfloor>"
        using False hx by (auto simp: rne_def Let_def split: if_splits)
      then have "rne y = \<lfloor>y\<rfloor> + 1"
        using hx d True by (auto simp: rne_def Let_def)
      moreover have "rne x \<le> \<lfloor>x\<rfloor> + 1" using rne_cases [of x] by auto
      ultimately show ?thesis using True by simp
    qed
  next
    case False
    with fl have "\<lfloor>x\<rfloor> + 1 \<le> \<lfloor>y\<rfloor>" by simp
    moreover have "rne x \<le> \<lfloor>x\<rfloor> + 1" using rne_cases [of x] by auto
    moreover have "\<lfloor>y\<rfloor> \<le> rne y" using rne_cases [of y] by auto
    ultimately show ?thesis by linarith
  qed
qed

lemma ulp_pos: "0 < ulp x"
  by (simp add: ulp_def)

lemma floor_log_bounds:
  assumes "x \<noteq> 0"
  shows "2 powr of_int \<lfloor>log 2 \<bar>x\<bar>\<rfloor> \<le> \<bar>x\<bar>" and "\<bar>x\<bar> < 2 powr (of_int \<lfloor>log 2 \<bar>x\<bar>\<rfloor> + 1)"
proof -
  from assms have pos: "0 < \<bar>x\<bar>" by simp
  have "of_int \<lfloor>log 2 \<bar>x\<bar>\<rfloor> \<le> log 2 \<bar>x\<bar>" by simp
  then show "2 powr of_int \<lfloor>log 2 \<bar>x\<bar>\<rfloor> \<le> \<bar>x\<bar>"
    using pos le_log_iff [of 2 "\<bar>x\<bar>" "of_int \<lfloor>log 2 \<bar>x\<bar>\<rfloor>"] by simp
  have "log 2 \<bar>x\<bar> < of_int \<lfloor>log 2 \<bar>x\<bar>\<rfloor> + 1" by linarith
  then show "\<bar>x\<bar> < 2 powr (of_int \<lfloor>log 2 \<bar>x\<bar>\<rfloor> + 1)"
    using pos log_less_iff [of 2 "\<bar>x\<bar>" "of_int \<lfloor>log 2 \<bar>x\<bar>\<rfloor> + 1"] by simp
qed

lemma floor_log_unique:
  assumes "2 powr of_int e \<le> \<bar>x\<bar>" and "\<bar>x\<bar> < 2 powr (of_int e + 1)"
  shows "\<lfloor>log 2 \<bar>x\<bar>\<rfloor> = e"
proof -
  have "0 < (2::real) powr of_int e" by simp
  with assms(1) have pos: "0 < \<bar>x\<bar>" by linarith
  have "of_int e \<le> log 2 \<bar>x\<bar>"
    using assms(1) pos le_log_iff [of 2 "\<bar>x\<bar>" "of_int e"] by simp
  moreover have "log 2 \<bar>x\<bar> < of_int e + 1"
    using assms(2) pos log_less_iff [of 2 "\<bar>x\<bar>" "of_int e + 1"] by simp
  ultimately show ?thesis by linarith
qed

text \<open>Evaluation in a known binade.\<close>

lemma fl_binade_int:
  assumes "2 powr of_int e \<le> \<bar>x\<bar>" and "\<bar>x\<bar> < 2 powr (of_int e + 1)" and "- 1022 \<le> e"
  shows "fl x = of_int (rne (x / 2 powr (of_int e - 52))) * 2 powr (of_int e - 52)"
proof -
  have "0 < (2::real) powr of_int e" by simp
  with assms(1) have "x \<noteq> 0" by auto
  moreover have "expo x = e"
    using floor_log_unique [OF assms(1,2)] assms(3) by (simp add: expo_def)
  ultimately show ?thesis by (simp add: fl_def ulp_def)
qed

lemma two_powr_nat_diff:
  assumes "k \<le> 52"
  shows "(2::real) powr (real_of_int (int k) - 52) = 1 / 2 ^ (52 - k)"
proof -
  have "real_of_int (int k) - 52 = - real (52 - k)" using assms by simp
  then have "(2::real) powr (real_of_int (int k) - 52) = 2 powr (- real (52 - k))"
    by (rule arg_cong)
  also have "\<dots> = inverse (2 powr real (52 - k))" by (rule powr_minus)
  also have "(2::real) powr real (52 - k) = 2 ^ (52 - k)" by (rule powr_realpow) simp
  finally show ?thesis by (simp only: inverse_eq_divide)
qed

lemma fl_binade:
  assumes "2 ^ k \<le> \<bar>x\<bar>" and "\<bar>x\<bar> < 2 * 2 ^ k" and "k \<le> 52"
  shows "fl x = of_int (rne (x * 2 ^ (52 - k))) / 2 ^ (52 - k)"
proof -
  have p: "(2::real) powr real_of_int (int k) = 2 ^ k"
    using powr_realpow [of "2::real" k] by simp
  have a: "2 powr real_of_int (int k) \<le> \<bar>x\<bar>"
    unfolding p by (rule assms(1))
  have "(2::real) powr (real_of_int (int k) + 1) = 2 powr real_of_int (int k) * 2 powr 1"
    by (rule powr_add)
  also have "\<dots> = 2 * 2 ^ k" unfolding p by simp
  finally have b: "\<bar>x\<bar> < 2 powr (real_of_int (int k) + 1)"
    using assms(2) by simp
  have c: "- 1022 \<le> int k" by simp
  have "fl x = of_int (rne (x / (1 / 2 ^ (52 - k)))) * (1 / 2 ^ (52 - k))"
    using fl_binade_int [OF a b c] unfolding two_powr_nat_diff [OF assms(3)] .
  then show ?thesis by simp
qed

lemma fl_0 [simp]: "fl 0 = 0"
  by (simp add: fl_def)

lemma fl_error: "\<bar>fl x - x\<bar> \<le> ulp x / 2"
proof (cases "x = 0")
  case True
  then show ?thesis using ulp_pos [of x] by simp
next
  case False
  have "\<bar>of_int (rne (x / ulp x)) - x / ulp x\<bar> \<le> 1 / 2" by (rule rne_error)
  then have "\<bar>of_int (rne (x / ulp x)) - x / ulp x\<bar> * ulp x \<le> 1 / 2 * ulp x"
    using ulp_pos [of x] by (intro mult_right_mono) simp_all
  moreover have "\<bar>of_int (rne (x / ulp x)) - x / ulp x\<bar> * ulp x
      = \<bar>of_int (rne (x / ulp x)) * ulp x - x\<bar>"
  proof -
    have "\<bar>of_int (rne (x / ulp x)) - x / ulp x\<bar> * ulp x
        = \<bar>(of_int (rne (x / ulp x)) - x / ulp x) * ulp x\<bar>"
      using ulp_pos [of x] by (simp add: abs_mult)
    also have "(of_int (rne (x / ulp x)) - x / ulp x) * ulp x
        = of_int (rne (x / ulp x)) * ulp x - x"
      using ulp_pos [of x] by (simp add: left_diff_distrib)
    finally show ?thesis .
  qed
  ultimately show ?thesis using False by (simp add: fl_def)
qed

lemma ulp_le:
  assumes "\<bar>x\<bar> < 2 ^ k" and "x \<noteq> 0"
  shows "ulp x \<le> 2 ^ k / 2 ^ 53"
proof -
  have "2 powr of_int \<lfloor>log 2 \<bar>x\<bar>\<rfloor> < 2 powr real k"
    using floor_log_bounds(1) [OF assms(2)] assms(1) by (simp add: powr_realpow)
  then have "of_int \<lfloor>log 2 \<bar>x\<bar>\<rfloor> < real k" by simp
  then have "\<lfloor>log 2 \<bar>x\<bar>\<rfloor> < int k" by linarith
  then have "expo x \<le> int k - 1" by (simp add: expo_def)
  then have "of_int (expo x) - 52 \<le> real k - 53" by linarith
  then have "ulp x \<le> 2 powr (real k - 53)" by (simp add: ulp_def)
  also have "\<dots> = 2 ^ k / 2 ^ 53"
    by (simp add: powr_diff powr_realpow)
  finally show ?thesis .
qed

lemma fl_error_bound:
  assumes "\<bar>x\<bar> < 2 ^ k"
  shows "\<bar>fl x - x\<bar> \<le> 2 ^ k / 2 ^ 54"
proof (cases "x = 0")
  case True
  then show ?thesis by simp
next
  case False
  show ?thesis using fl_error [of x] ulp_le [OF assms False] by simp
qed


lemma fl_le_grid:
  assumes "x \<noteq> 0" and "x \<le> of_int n * ulp x"
  shows "fl x \<le> of_int n * ulp x"
proof -
  have "x / ulp x \<le> of_int n" using assms(2) ulp_pos [of x] by (simp add: pos_divide_le_eq)
  then have "rne (x / ulp x) \<le> rne (of_int n)" by (rule rne_mono)
  then have "(of_int (rne (x / ulp x)) :: real) \<le> of_int n" by simp
  then have "of_int (rne (x / ulp x)) * ulp x \<le> of_int n * ulp x"
    using ulp_pos [of x] by (intro mult_right_mono) simp_all
  then show ?thesis using assms(1) by (simp add: fl_def)
qed

lemma fl_ge_grid:
  assumes "x \<noteq> 0" and "of_int n * ulp x \<le> x"
  shows "of_int n * ulp x \<le> fl x"
proof -
  have "of_int n \<le> x / ulp x" using assms(2) ulp_pos [of x] by (simp add: pos_le_divide_eq)
  then have "rne (of_int n) \<le> rne (x / ulp x)" by (rule rne_mono)
  then have "(of_int n :: real) \<le> of_int (rne (x / ulp x))" by simp
  then have "of_int n * ulp x \<le> of_int (rne (x / ulp x)) * ulp x"
    using ulp_pos [of x] by (intro mult_right_mono) simp_all
  then show ?thesis using assms(1) by (simp add: fl_def)
qed

lemma fl_nonneg: "0 \<le> x \<Longrightarrow> 0 \<le> fl x"
  using fl_ge_grid [of x 0] by (cases "x = 0") simp_all

lemma expo_mono:
  assumes "0 < x" and "x \<le> y"
  shows "expo x \<le> expo y"
proof -
  have "log 2 \<bar>x\<bar> \<le> log 2 \<bar>y\<bar>" using assms by simp
  then have "\<lfloor>log 2 \<bar>x\<bar>\<rfloor> \<le> \<lfloor>log 2 \<bar>y\<bar>\<rfloor>" by (rule floor_mono)
  then show ?thesis by (simp add: expo_def)
qed

lemma two_powr_plus_nat: "(2::real) powr (a + real n) = 2 powr a * 2 ^ n"
proof -
  have "(2::real) powr (a + real n) = 2 powr a * 2 powr real n" by (rule powr_add)
  also have "(2::real) powr real n = 2 ^ n" by (rule powr_realpow) simp
  finally show ?thesis .
qed

lemma ulp_times_53: "of_int (2 ^ 53) * ulp x = 2 powr (of_int (expo x) + 1)"
proof -
  have "real_of_int (expo x) + 1 = (of_int (expo x) - 52) + real 53" by simp
  then have "(2::real) powr (of_int (expo x) + 1) = 2 powr ((of_int (expo x) - 52) + real 53)"
    by (rule arg_cong)
  also have "\<dots> = 2 powr (of_int (expo x) - 52) * 2 ^ 53" by (rule two_powr_plus_nat)
  finally show ?thesis by (simp add: ulp_def)
qed

lemma ulp_times_52: "of_int (2 ^ 52) * ulp x = 2 powr of_int (expo x)"
proof -
  have "real_of_int (expo x) = (of_int (expo x) - 52) + real 52" by simp
  then have "(2::real) powr of_int (expo x) = 2 powr ((of_int (expo x) - 52) + real 52)"
    by (rule arg_cong)
  also have "\<dots> = 2 powr (of_int (expo x) - 52) * 2 ^ 52" by (rule two_powr_plus_nat)
  finally show ?thesis by (simp add: ulp_def)
qed

lemma fl_le_next_power:
  assumes "0 < x"
  shows "fl x \<le> 2 powr (of_int (expo x) + 1)"
proof -
  have x0: "x \<noteq> 0" using assms by simp
  have "\<lfloor>log 2 \<bar>x\<bar>\<rfloor> \<le> expo x" by (simp add: expo_def)
  then have "real_of_int \<lfloor>log 2 \<bar>x\<bar>\<rfloor> + 1 \<le> real_of_int (expo x) + 1" by linarith
  then have "(2::real) powr (of_int \<lfloor>log 2 \<bar>x\<bar>\<rfloor> + 1) \<le> 2 powr (of_int (expo x) + 1)"
    by (intro powr_mono) simp_all
  moreover have "\<bar>x\<bar> < 2 powr (of_int \<lfloor>log 2 \<bar>x\<bar>\<rfloor> + 1)"
    by (rule floor_log_bounds(2) [OF x0])
  ultimately have "x \<le> 2 powr (of_int (expo x) + 1)" using assms by linarith
  then have "x \<le> of_int (2 ^ 53) * ulp x" unfolding ulp_times_53 .
  then have "fl x \<le> of_int (2 ^ 53) * ulp x" by (rule fl_le_grid [OF x0])
  then show ?thesis unfolding ulp_times_53 .
qed

lemma fl_ge_power:
  assumes "0 < y" and "- 1022 < expo y"
  shows "2 powr of_int (expo y) \<le> fl y"
proof -
  have y0: "y \<noteq> 0" using assms by simp
  from assms(2) have e: "expo y = \<lfloor>log 2 \<bar>y\<bar>\<rfloor>" by (simp add: expo_def max_def split: if_splits)
  have "2 powr of_int \<lfloor>log 2 \<bar>y\<bar>\<rfloor> \<le> \<bar>y\<bar>" by (rule floor_log_bounds(1) [OF y0])
  then have "2 powr of_int (expo y) \<le> y" unfolding e using assms(1) by linarith
  then have g: "of_int (2 ^ 52) * ulp y \<le> y" unfolding ulp_times_52 .
  have "of_int (2 ^ 52) * ulp y \<le> fl y" using g by (rule fl_ge_grid [OF y0])
  then show ?thesis unfolding ulp_times_52 .
qed

lemma fl_mono:
  assumes "0 \<le> x" and "x \<le> y"
  shows "fl x \<le> fl y"
proof (cases "x = 0")
  case True
  then show ?thesis using fl_nonneg [of y] assms by simp
next
  case False
  with assms have x: "0 < x" and y: "0 < y" by simp_all
  have le: "expo x \<le> expo y" using x assms(2) by (rule expo_mono)
  show ?thesis
  proof (cases "expo x = expo y")
    case True
    then have u: "ulp x = ulp y" by (simp add: ulp_def)
    have "x / ulp y \<le> y / ulp y" using assms(2) ulp_pos [of y] by (simp add: divide_right_mono)
    then have "rne (x / ulp y) \<le> rne (y / ulp y)" by (rule rne_mono)
    then have "(of_int (rne (x / ulp y)) :: real) \<le> of_int (rne (y / ulp y))" by simp
    then have "of_int (rne (x / ulp y)) * ulp y \<le> of_int (rne (y / ulp y)) * ulp y"
      using ulp_pos [of y] by (intro mult_right_mono) simp_all
    then show ?thesis using x y u by (simp add: fl_def)
  next
    case False
    with le have lt: "expo x + 1 \<le> expo y" by simp
    have "- 1022 \<le> expo x" by (simp add: expo_def)
    with lt have "- 1022 < expo y" by simp
    then have "2 powr of_int (expo y) \<le> fl y" by (rule fl_ge_power [OF y])
    moreover have "fl x \<le> 2 powr (of_int (expo x) + 1)" by (rule fl_le_next_power [OF x])
    moreover have "(2::real) powr (of_int (expo x) + 1) \<le> 2 powr of_int (expo y)"
    proof -
      have "real_of_int (expo x) + 1 \<le> real_of_int (expo y)" using lt by linarith
      then show ?thesis by simp
    qed
    ultimately show ?thesis by linarith
  qed
qed

lemma fl_exact:
  assumes i: "of_int \<lfloor>x * 2 ^ k\<rfloor> = x * 2 ^ k" and b: "\<bar>x\<bar> * 2 ^ k < 2 ^ 53"
    and k: "k \<le> 1074"
  shows "fl x = x"
proof (cases "x = 0")
  case True
  then show ?thesis by simp
next
  case False
  define m where "m = \<lfloor>x * 2 ^ k\<rfloor>"
  have xm: "x = of_int m * 2 powr (- real k)"
  proof -
    have "of_int m * 2 powr (- real k) = x * 2 ^ k * inverse (2 ^ k)"
      unfolding m_def i by (simp add: powr_minus powr_realpow)
    also have "\<dots> = x" by simp
    finally show ?thesis by simp
  qed
  have e: "expo x \<le> 52 - int k"
  proof -
    have "\<bar>x\<bar> < 2 ^ 53 / 2 ^ k" using b by (simp add: pos_less_divide_eq)
    also have "(2::real) ^ 53 / 2 ^ k = 2 powr (53 - real k)"
      by (simp add: powr_diff powr_realpow)
    finally have "\<bar>x\<bar> < 2 powr (53 - real k)" .
    with floor_log_bounds(1) [OF False]
    have "2 powr of_int \<lfloor>log 2 \<bar>x\<bar>\<rfloor> < 2 powr (53 - real k)" by linarith
    then have "of_int \<lfloor>log 2 \<bar>x\<bar>\<rfloor> < 53 - real k" by simp
    then have "\<lfloor>log 2 \<bar>x\<bar>\<rfloor> \<le> 52 - int k" by linarith
    then show ?thesis using k by (simp add: expo_def)
  qed
  define j where "j = nat (52 - int k - expo x)"
  have j: "real j = 52 - real k - of_int (expo x)" using e by (simp add: j_def)
  have "x / ulp x = of_int m * (2 powr (- real k) / 2 powr (of_int (expo x) - 52))"
    using xm by (simp add: ulp_def)
  also have "2 powr (- real k) / 2 powr (of_int (expo x) - 52) = (2::real) powr real j"
  proof -
    have "(2::real) powr (- real k) / 2 powr (of_int (expo x) - 52)
        = 2 powr (- real k - (of_int (expo x) - 52))" by (rule powr_diff [symmetric])
    also have "- real k - (real_of_int (expo x) - 52) = real j" unfolding j by simp
    finally show ?thesis .
  qed
  also have "\<dots> = 2 ^ j" by (rule powr_realpow) simp
  finally have q: "x / ulp x = of_int (m * 2 ^ j)" by simp
  have "rne (x / ulp x) = m * 2 ^ j" unfolding q by (rule rne_of_int)
  then have "fl x = x / ulp x * ulp x" using False q by (simp add: fl_def)
  then show ?thesis using ulp_pos [of x] by simp
qed

text \<open>The rounding is symmetric, and exact on the integers below \<open>2 ^ 53\<close>.\<close>

lemma rne_minus: "rne (- x) = - rne x"
proof (cases "of_int \<lfloor>x\<rfloor> = x")
  case True
  then obtain n where "x = of_int n" by metis
  then have "- x = of_int (- n)" by simp
  then show ?thesis using \<open>x = of_int n\<close> by (simp only: rne_of_int)
next
  case False
  then have lt: "of_int \<lfloor>x\<rfloor> < x" using of_int_floor_le [of x] by linarith
  have f: "\<lfloor>- x\<rfloor> = - \<lfloor>x\<rfloor> - 1"
  proof (rule floor_unique)
    show "of_int (- \<lfloor>x\<rfloor> - 1) \<le> - x" by simp linarith
    show "- x < of_int (- \<lfloor>x\<rfloor> - 1) + 1" using lt by simp
  qed
  define n where "n = \<lfloor>x\<rfloor>"
  define d where "d = x - of_int n"
  have d: "0 < d" "d < 1" using False unfolding d_def n_def by linarith+
  have r: "rne x = (if d < 1 / 2 then n else if 1 / 2 < d then n + 1
                   else if even n then n else n + 1)"
    unfolding rne_def Let_def n_def d_def ..
  have r': "rne (- x) = (if 1 - d < 1 / 2 then - n - 1 else if 1 / 2 < 1 - d then - n
                   else if even (- n - 1) then - n - 1 else - n)"
    unfolding rne_def Let_def f n_def d_def by (simp add: algebra_simps)
  show ?thesis unfolding r r'
    by (cases "d < 1 / 2"; cases "1 / 2 < d"; cases "even n"; simp)
qed

lemma ulp_minus [simp]: "ulp (- x) = ulp x"
  by (simp add: ulp_def expo_def)

lemma fl_minus: "fl (- x) = - fl x"
  by (simp add: fl_def rne_minus)

lemma fl_of_int:
  assumes "\<bar>i\<bar> < 2 ^ 53"
  shows "fl (of_int i) = of_int i"
proof (rule fl_exact [where k = 0])
  show "real_of_int \<lfloor>real_of_int i * 2 ^ 0\<rfloor> = real_of_int i * 2 ^ 0" by simp
  have "real_of_int \<bar>i\<bar> < real_of_int (2 ^ 53)" using assms by (simp only: of_int_less_iff)
  then show "\<bar>real_of_int i\<bar> * 2 ^ 0 < 2 ^ 53" by simp
qed simp

lemma int_square_bound:
  assumes "\<bar>i\<bar> \<le> (2::int) ^ 20"
  shows "i * i \<le> 2 ^ 40" and "0 \<le> i * i"
proof -
  have "\<bar>i\<bar> * \<bar>i\<bar> \<le> 2 ^ 20 * 2 ^ 20" using assms by (intro mult_mono) simp_all
  then show "i * i \<le> 2 ^ 40" by (simp add: abs_mult_self_eq)
  show "0 \<le> i * i" by simp
qed

lemma fl_squares_of_int:
  assumes "\<bar>i\<bar> \<le> 2 ^ 20" and "\<bar>j\<bar> \<le> 2 ^ 20"
  shows "fl (fl (of_int i * of_int i) + fl (of_int j * of_int j)) = of_int (i * i + j * j)"
proof -
  have a: "fl (of_int i * of_int i) = of_int (i * i)"
    using fl_of_int [of "i * i"] int_square_bound [OF assms(1)] by simp
  have b: "fl (of_int j * of_int j) = of_int (j * j)"
    using fl_of_int [of "j * j"] int_square_bound [OF assms(2)] by simp
  have "fl (of_int (i * i + j * j)) = of_int (i * i + j * j)"
    using int_square_bound [OF assms(1)] int_square_bound [OF assms(2)]
    by (intro fl_of_int) simp
  then show ?thesis unfolding a b by simp
qed

subsection \<open>Properties of Point\<close>



lemma Point_update_alphaSpeed [simp]: "alphaSpeed (Point_update p) = alphaSpeed p"
  by (simp add: Point_update_def Let_def)

lemma Point_update_iter_alphaSpeed [simp]:
  "alphaSpeed ((Point_update ^^ k) p) = alphaSpeed p"
  by (induction k) simp_all











subsection \<open>The random helpers\<close>

lemmas fl_exact20 = fl_exact [where k = 20]

text \<open>
  Away from the integers the rounding does not change the result of
  \<^verbatim>\<open>randomIntBetween\<close>: it is the floor of the exact value.
\<close>

lemma randomIntBetween_away:
  assumes r: "\<bar>r\<bar> \<le> 1" and mn: "\<bar>mn\<bar> \<le> 64" and mx: "\<bar>mx\<bar> \<le> 64"
    and lo: "of_int \<lfloor>r * (mx - mn + 1) + mn\<rfloor> + 1 / 2 ^ 30 \<le> r * (mx - mn + 1) + mn"
    and hi: "r * (mx - mn + 1) + mn + 1 / 2 ^ 30 \<le> of_int \<lfloor>r * (mx - mn + 1) + mn\<rfloor> + 1"
  shows "randomIntBetween r mn mx = of_int \<lfloor>r * (mx - mn + 1) + mn\<rfloor>"
proof -
  define e :: real where "e = 2 ^ 8 / 2 ^ 54"
  define d1 where "d1 = fl (mx - mn)"
  define s1 where "s1 = fl (d1 + 1)"
  define p where "p = fl (r * s1)"
  define t where "t = fl (p + mn)"
  define w where "w = mx - mn + 1"
  have e: "e = 1 / 2 ^ 46" by (simp add: e_def)
  have e1: "0 \<le> e" "e \<le> 1 / 8" by (simp_all add: e_def)
  have "\<bar>mx - mn\<bar> < 2 ^ 8" using mn mx by simp
  then have d1: "\<bar>d1 - (mx - mn)\<bar> \<le> e" unfolding d1_def e_def by (rule fl_error_bound)
  have "\<bar>d1 + 1\<bar> < 256" using d1 mn mx e1 by linarith
  then have "\<bar>d1 + 1\<bar> < 2 ^ 8" by simp
  then have "\<bar>s1 - (d1 + 1)\<bar> \<le> e" unfolding s1_def e_def by (rule fl_error_bound)
  with d1 have s1: "\<bar>s1 - w\<bar> \<le> 2 * e" unfolding w_def by linarith
  have wb: "\<bar>w\<bar> \<le> 129" unfolding w_def using mn mx by linarith
  have s1b: "\<bar>s1\<bar> \<le> 130" using s1 wb e1 by linarith
  have "\<bar>r * s1\<bar> = \<bar>r\<bar> * \<bar>s1\<bar>" by (rule abs_mult)
  also have "\<dots> \<le> 1 * 130" using r s1b by (intro mult_mono) simp_all
  finally have rs: "\<bar>r * s1\<bar> \<le> 130" by simp
  then have "\<bar>r * s1\<bar> < 2 ^ 8" by simp
  then have p1: "\<bar>p - r * s1\<bar> \<le> e" unfolding p_def e_def by (rule fl_error_bound)
  have "\<bar>r * s1 - r * w\<bar> = \<bar>r\<bar> * \<bar>s1 - w\<bar>"
    by (simp add: abs_mult [symmetric] right_diff_distrib)
  also have "\<dots> \<le> 1 * (2 * e)" using r s1 by (intro mult_mono) simp_all
  finally have "\<bar>r * s1 - r * w\<bar> \<le> 2 * e" by simp
  with p1 have p: "\<bar>p - r * w\<bar> \<le> 3 * e" by linarith
  have "\<bar>p + mn\<bar> < 256" using p1 rs mn e1 by linarith
  then have "\<bar>p + mn\<bar> < 2 ^ 8" by simp
  then have "\<bar>t - (p + mn)\<bar> \<le> e" unfolding t_def e_def by (rule fl_error_bound)
  with p have t: "\<bar>t - (r * w + mn)\<bar> \<le> 4 * e" by linarith
  have small: "4 * e < 1 / 2 ^ 30" by (simp add: e)
  have "\<lfloor>t\<rfloor> = \<lfloor>r * w + mn\<rfloor>"
  proof (rule floor_unique)
    show "of_int \<lfloor>r * w + mn\<rfloor> \<le> t" using t small lo unfolding w_def by linarith
    show "t < of_int \<lfloor>r * w + mn\<rfloor> + 1" using t small hi unfolding w_def by linarith
  qed
  then show ?thesis
    unfolding randomIntBetween_def t_def p_def s1_def d1_def w_def by simp
qed

text \<open>The random value 0 gives the lower bound, when that is an integer.\<close>

lemma randomIntBetween_zero:
  assumes "of_int \<lfloor>mn\<rfloor> = mn" and "\<bar>mn\<bar> \<le> 64"
  shows "randomIntBetween 0 mn mx = mn"
proof -
  have "fl mn = mn" using assms by (intro fl_exact [where k = 0]) simp_all
  then show ?thesis using assms(1) by (simp add: randomIntBetween_def)
qed

text \<open>
  The largest binary64 value below 1 is \<open>1 - 1 / 2 ^ 53\<close>. There the product with 3 is
  rounded to \<open>3 - 1 / 2 ^ 51\<close>, and the sum with 2 lies half way between \<open>5 - 1 / 2 ^ 50\<close>
  and 5: it is rounded to 5, whose last bit is even.
\<close>

lemma randomIntBetween_top: "randomIntBetween (1 - 1 / 2 ^ 53) 2 4 = 5"
proof -
  have a: "fl (fl (4 - 2) + 1) = 3" by (simp add: fl_exact20)
  have b: "fl ((1 - 1 / 2 ^ 53) * 3) = 3 - 1 / 2 ^ 51"
    by (simp add: fl_binade [where k = 1] rne_def Let_def)
  have c: "fl (3 - 1 / 2 ^ 51 + 2) = 5"
    by (simp add: fl_binade [where k = 2] rne_def Let_def)
  show ?thesis unfolding randomIntBetween_def a b c by simp
qed

lemma int_2_5: "2 \<le> (n::int) \<Longrightarrow> n \<le> 5 \<Longrightarrow> (of_int n :: real) \<in> {2, 3, 4, 5}"
proof -
  assume "2 \<le> n" "n \<le> 5"
  then have "n = 2 \<or> n = 3 \<or> n = 4 \<or> n = 5" by arith
  then show ?thesis by auto
qed

lemma int_2_4: "2 \<le> (n::int) \<Longrightarrow> n \<le> 4 \<Longrightarrow> (of_int n :: real) \<in> {2, 3, 4}"
proof -
  assume "2 \<le> n" "n \<le> 4"
  then have "n = 2 \<or> n = 3 \<or> n = 4" by arith
  then show ?thesis by auto
qed

lemma randomIntBetween_2_5:
  assumes "0 \<le> r" and "r < 1"
  shows "randomIntBetween r 2 4 \<in> {2, 3, 4, 5}"
proof -
  have a: "fl (fl (4 - 2) + 1) = 3" by (simp add: fl_exact20)
  have e: "fl 3 = 3" "fl 2 = 2" "fl 5 = 5" by (simp_all add: fl_exact20)
  have "0 \<le> r * 3" "r * 3 \<le> 3" using assms by simp_all
  then have p: "0 \<le> fl (r * 3)" "fl (r * 3) \<le> 3"
    using fl_nonneg [of "r * 3"] fl_mono [of "r * 3" 3] e by simp_all
  then have "fl 2 \<le> fl (fl (r * 3) + 2)" "fl (fl (r * 3) + 2) \<le> fl 5"
    by (intro fl_mono; simp)+
  then have "2 \<le> fl (fl (r * 3) + 2)" "fl (fl (r * 3) + 2) \<le> 5" unfolding e by simp_all
  then have "2 \<le> \<lfloor>fl (fl (r * 3) + 2)\<rfloor>" "\<lfloor>fl (fl (r * 3) + 2)\<rfloor> \<le> 5" by linarith+
  then show ?thesis unfolding randomIntBetween_def a by (rule int_2_5)
qed

text \<open>Every other binary64 value of \<open>[0, 1)\<close> is at most \<open>1 - 1 / 2 ^ 52\<close>.\<close>

lemma randomIntBetween_2_4:
  assumes "0 \<le> r" and "r \<le> 1 - 1 / 2 ^ 52"
  shows "randomIntBetween r 2 4 \<in> {2, 3, 4}"
proof -
  have a: "fl (fl (4 - 2) + 1) = 3" by (simp add: fl_exact20)
  have b: "fl ((1 - 1 / 2 ^ 52) * 3) = 3 - 1 / 2 ^ 50"
    by (simp add: fl_binade [where k = 1] rne_def Let_def)
  have c: "fl (3 - 1 / 2 ^ 50 + 2) = 5 - 1 / 2 ^ 50"
    by (simp add: fl_binade [where k = 2] rne_def Let_def)
  have e: "fl 2 = 2" by (simp add: fl_exact20)
  have "0 \<le> r * 3" "r * 3 \<le> (1 - 1 / 2 ^ 52) * 3" using assms by simp_all
  then have p: "0 \<le> fl (r * 3)" "fl (r * 3) \<le> 3 - 1 / 2 ^ 50"
    using fl_nonneg [of "r * 3"] fl_mono [of "r * 3" "(1 - 1 / 2 ^ 52) * 3"] b by simp_all
  then have "fl 2 \<le> fl (fl (r * 3) + 2)" "fl (fl (r * 3) + 2) \<le> fl (3 - 1 / 2 ^ 50 + 2)"
    by (intro fl_mono; simp)+
  then have "2 \<le> fl (fl (r * 3) + 2)" "fl (fl (r * 3) + 2) < 5" unfolding e c by simp_all
  then have "2 \<le> \<lfloor>fl (fl (r * 3) + 2)\<rfloor>" "\<lfloor>fl (fl (r * 3) + 2)\<rfloor> \<le> 4" by linarith+
  then show ?thesis unfolding randomIntBetween_def a by (rule int_2_4)
qed

lemma randomFloatBetween_range:
  assumes "0 \<le> r" and "r \<le> 1 - 1 / 2 ^ 53"
  shows "0.25 \<le> randomFloatBetween r 0.25 1.75" and "randomFloatBetween r 0.25 1.75 < 1.75"
proof -
  have a: "fl (1.75 - 0.25) = 3 / 2" by (simp add: fl_exact20)
  have b: "fl ((1 - 1 / 2 ^ 53) * (3 / 2)) = 3 / 2 - 1 / 2 ^ 52"
    by (simp add: fl_binade [where k = 0] rne_def Let_def)
  have c: "fl (3 / 2 - 1 / 2 ^ 52 + 0.25) = 7 / 4 - 1 / 2 ^ 52"
    by (simp add: fl_exact [where k = 52])
  have e: "fl 0.25 = 1 / 4" by (simp add: fl_exact20)
  have "0 \<le> r * (3 / 2)" "r * (3 / 2) \<le> (1 - 1 / 2 ^ 53) * (3 / 2)" using assms by simp_all
  then have p: "0 \<le> fl (r * (3 / 2))" "fl (r * (3 / 2)) \<le> 3 / 2 - 1 / 2 ^ 52"
    using fl_nonneg [of "r * (3 / 2)"] fl_mono [of "r * (3 / 2)" "(1 - 1 / 2 ^ 53) * (3 / 2)"] b
    by simp_all
  then have "fl 0.25 \<le> fl (fl (r * (3 / 2)) + 0.25)"
    "fl (fl (r * (3 / 2)) + 0.25) \<le> fl (3 / 2 - 1 / 2 ^ 52 + 0.25)"
    by (intro fl_mono; simp)+
  then have q: "1 / 4 \<le> fl (fl (r * (3 / 2)) + 0.25)"
    "fl (fl (r * (3 / 2)) + 0.25) \<le> 7 / 4 - 1 / 2 ^ 52"
    unfolding e c by simp_all
  show "0.25 \<le> randomFloatBetween r 0.25 1.75"
    unfolding randomFloatBetween_def a using q(1) by simp
  show "randomFloatBetween r 0.25 1.75 < 1.75"
    unfolding randomFloatBetween_def a using q(2) by simp
qed

text \<open>
  Claim C7, evaluated where the code departs from it. \<open>1 - 1 / 2 ^ 53\<close> is a binary64 value
  of \<open>[0, 1)\<close>, and for it \<^verbatim>\<open>randomIntBetween(2, 4)\<close> is 5: the lower bound is added before
  the floor is taken, and the sum is rounded up to 5.
\<close>

theorem randomIntBetween_above_max:
  "fl (1 - 1 / 2 ^ 53) = 1 - 1 / 2 ^ 53
   \<and> (0::real) \<le> 1 - 1 / 2 ^ 53 \<and> (1::real) - 1 / 2 ^ 53 < 1
   \<and> randomIntBetween (1 - 1 / 2 ^ 53) 2 4 = 5"
proof -
  have "fl (1 - 1 / 2 ^ 53) = 1 - 1 / 2 ^ 53"
    by (simp add: fl_exact [where k = 53])
  then show ?thesis using randomIntBetween_top by simp
qed

subsection \<open>Where the operations are exact\<close>

text \<open>
  The operations written without rounding act on the size of a point, on the constants and
  on the coordinates of the pointer. For the sizes that \<^verbatim>\<open>randomIntBetween(2, 4)\<close> returns
  and for integer coordinates of the pointer, the exact result is a binary64 value.
\<close>

lemma size_operations_exact:
  assumes "dims \<in> {2, 3, 4, 5}"
  shows "fl (dims * 6) = dims * 6"
    and "fl (dims / 2) = dims / 2"
    and "fl (CANVAS_WIDTH - dims / 2) = CANVAS_WIDTH - dims / 2"
    and "fl (CANVAS_HEIGHT - dims / 2) = CANVAS_HEIGHT - dims / 2"
  using assms by (auto simp: fl_exact20 CANVAS_WIDTH_def CANVAS_HEIGHT_def)

lemma pointer_operations_exact:
  assumes "\<bar>i\<bar> < 2 ^ 52"
  shows "fl (fl (of_int i - fl (CANVAS_WIDTH / 2)) + fl (MOUSE_WIDTH / 2))
           = of_int i - (CANVAS_WIDTH / 2) + (MOUSE_WIDTH / 2)"
    and "fl (fl (of_int i - fl (CANVAS_HEIGHT / 2)) + fl (MOUSE_HEIGHT / 2))
           = of_int i - (CANVAS_HEIGHT / 2) + (MOUSE_HEIGHT / 2)"
proof -
  have c: "fl 32 = 32" "fl 6 = 6" "fl 10 = 10" by (simp_all add: fl_exact20)
  have "\<bar>i - 32\<bar> < 2 ^ 53" "\<bar>i - 26\<bar> < 2 ^ 53" "\<bar>i - 22\<bar> < 2 ^ 53" using assms by simp_all
  then have "fl (of_int (i - 32)) = of_int (i - 32)" "fl (of_int (i - 26)) = of_int (i - 26)"
    "fl (of_int (i - 22)) = of_int (i - 22)"
    by (simp_all only: fl_of_int)
  then have e: "fl (of_int i - 32) = of_int i - 32" "fl (of_int i - 26) = of_int i - 26"
    "fl (of_int i - 22) = of_int i - 22"
    by simp_all
  have s: "real_of_int i - 32 + 6 = of_int i - 26" "real_of_int i - 32 + 10 = of_int i - 22"
    by simp_all
  show "fl (fl (of_int i - fl (CANVAS_WIDTH / 2)) + fl (MOUSE_WIDTH / 2))
           = of_int i - (CANVAS_WIDTH / 2) + (MOUSE_WIDTH / 2)"
    by (simp add: CANVAS_WIDTH_def MOUSE_WIDTH_def c e s)
  show "fl (fl (of_int i - fl (CANVAS_HEIGHT / 2)) + fl (MOUSE_HEIGHT / 2))
           = of_int i - (CANVAS_HEIGHT / 2) + (MOUSE_HEIGHT / 2)"
    by (simp add: CANVAS_HEIGHT_def MOUSE_HEIGHT_def c e s)
qed

subsection \<open>The pointer-move handler\<close>

text \<open>
  Claim C9. The pointer-move handler leaves the active collection as it is: the same
  points in the same order, each with the same position, size, fade value and satisfied
  flag. It changes the stored pointer position and the requested placement only; the
  calls received by the drawing context are the same as before.
\<close>

theorem mouseMovementHandler_frame:
  "points (mouseMovementHandler this event) = points this
   \<and> canvas (mouseMovementHandler this event) = canvas this"
  by (simp add: mouseMovementHandler_def updateMouseCanvas_def split: option.splits)

subsection \<open>hexToRgb\<close>

lemma hexClass_spec_hexDigit: "hexClass c = spec_hexDigit c"
  by (auto simp: hexClass_def spec_hexDigit_def)

lemma hash_not_hexClass: "\<not> hexClass CHR ''#''"
  by (simp add: hexClass_def)

lemma hexGroup_Some_iff:
  "hexGroup s = Some (g, r) \<longleftrightarrow> (\<exists>a b. s = a # b # r \<and> hexClass a \<and> hexClass b \<and> g = [a, b])"
  by (cases s rule: hexGroup.cases) auto

lemma six_elements:
  "length s = 6 \<longleftrightarrow> (\<exists>a b c d e f. s = [a, b, c, d, e, f])"
proof
  assume "length s = 6"
  then have "length s = Suc (Suc (Suc (Suc (Suc (Suc 0)))))" by simp
  then show "\<exists>a b c d e f. s = [a, b, c, d, e, f]"
    by (auto simp: length_Suc_conv)
qed auto

lemma hexGroups_matches:
  "hexGroups s \<noteq> None \<longleftrightarrow> length s = 6 \<and> list_all hexClass s"
proof
  assume "hexGroups s \<noteq> None"
  then obtain g1 s1 g2 s2 g3 where
    "hexGroup s = Some (g1, s1)" "hexGroup s1 = Some (g2, s2)" "hexGroup s2 = Some (g3, [])"
    by (auto simp: hexGroups_def split: option.splits if_splits)
  then show "length s = 6 \<and> list_all hexClass s"
    by (auto simp: hexGroup_Some_iff)
next
  assume "length s = 6 \<and> list_all hexClass s"
  then obtain a b c d e f where "s = [a, b, c, d, e, f]" and "list_all hexClass s"
    by (auto simp: six_elements)
  then show "hexGroups s \<noteq> None"
    by (simp add: hexGroups_def)
qed

lemma regex_exec_matches: "regex_exec s \<noteq> None \<longleftrightarrow> spec_strictHex s"
proof (cases s)
  case Nil
  then show ?thesis
    using hexGroups_matches [of "[]"] by (simp add: regex_exec_def spec_strictHex_def)
next
  case (Cons c rest)
  show ?thesis
  proof (cases "c = CHR ''#''")
    case True
    have "\<not> list_all hexClass s"
      using Cons True hash_not_hexClass by simp
    then have "\<not> hexGroups s \<noteq> None"
      using hexGroups_matches [of s] by blast
    then have "hexGroups s = None" by blast
    then have "regex_exec s \<noteq> None \<longleftrightarrow> hexGroups rest \<noteq> None"
      using Cons True by (simp add: regex_exec_def split: option.splits)
    also have "\<dots> \<longleftrightarrow> length rest = 6 \<and> list_all spec_hexDigit rest"
      using hexGroups_matches [of rest] hexClass_spec_hexDigit by (simp add: list_all_iff)
    finally show ?thesis using Cons True by (simp add: spec_strictHex_def)
  next
    case False
    then have "regex_exec s \<noteq> None \<longleftrightarrow> hexGroups s \<noteq> None"
      using Cons by (simp add: regex_exec_def)
    also have "\<dots> \<longleftrightarrow> length s = 6 \<and> list_all spec_hexDigit s"
      using hexGroups_matches [of s] hexClass_spec_hexDigit by (simp add: list_all_iff)
    finally show ?thesis using Cons False by (simp add: spec_strictHex_def)
  qed
qed

text \<open>
  Claim C6. \<^verbatim>\<open>hexToRgb\<close> gives red 0, green 191, blue 155 for \<^verbatim>\<open>#00bf9b\<close> and for
  \<^verbatim>\<open>00BF9B\<close>, gives the no-match result for \<^verbatim>\<open>not-a-color\<close>, and gives the no-match
  result exactly for the inputs that are not six hexadecimal digits optionally prefixed
  with \<^verbatim>\<open>#\<close>.
\<close>

theorem hexToRgb_examples_and_no_match:
  "hexToRgb ''#00bf9b'' = Some \<lparr>rgb_r = 0, rgb_g = 191, rgb_b = 155\<rparr>
   \<and> hexToRgb ''00BF9B'' = Some \<lparr>rgb_r = 0, rgb_g = 191, rgb_b = 155\<rparr>
   \<and> hexToRgb ''not-a-color'' = None
   \<and> (hexToRgb s = None \<longleftrightarrow> \<not> spec_strictHex s)"
proof -
  have a: "hexToRgb ''#00bf9b'' = Some \<lparr>rgb_r = 0, rgb_g = 191, rgb_b = 155\<rparr>"
    by (simp add: hexToRgb_def regex_exec_def hexGroups_def hexClass_def parseInt16_def
        hexDigitValue_def)
  have b: "hexToRgb ''00BF9B'' = Some \<lparr>rgb_r = 0, rgb_g = 191, rgb_b = 155\<rparr>"
    by (simp add: hexToRgb_def regex_exec_def hexGroups_def hexClass_def parseInt16_def
        hexDigitValue_def)
  have c: "hexToRgb ''not-a-color'' = None"
    by (simp add: hexToRgb_def regex_exec_def hexGroups_def hexClass_def)
  have d: "hexToRgb s = None \<longleftrightarrow> \<not> spec_strictHex s"
    using regex_exec_matches [of s] by (auto simp: hexToRgb_def split: option.splits)
  from a b c d show ?thesis by simp
qed

theorem hexToRgb_examples_and_no_match_witness:
  "spec_strictHex ''#FFffFF'' \<and> hexToRgb ''#FFffFF'' \<noteq> None
   \<and> \<not> spec_strictHex ''#12345'' \<and> hexToRgb ''#12345'' = None
   \<and> \<not> spec_strictHex ''#1234567'' \<and> hexToRgb ''#1234567'' = None
   \<and> \<not> spec_strictHex ''##123456'' \<and> hexToRgb ''##123456'' = None"
proof -
  have a: "spec_strictHex ''#FFffFF''" by (simp add: spec_strictHex_def spec_hexDigit_def)
  have b: "\<not> spec_strictHex ''#12345''" by (simp add: spec_strictHex_def)
  have c: "\<not> spec_strictHex ''#1234567''" by (simp add: spec_strictHex_def)
  have d: "\<not> spec_strictHex ''##123456''" by (simp add: spec_strictHex_def)
  from a b c d show ?thesis
    using hexToRgb_examples_and_no_match [of "''#FFffFF''"]
      hexToRgb_examples_and_no_match [of "''#12345''"]
      hexToRgb_examples_and_no_match [of "''#1234567''"]
      hexToRgb_examples_and_no_match [of "''##123456''"]
    by simp
qed

subsection \<open>The placement of the overlay\<close>

text \<open>
  Claim C8 says that the centre of the overlay is the pointer moved by half the overlay
  dimensions minus half the cursor dimensions.
  The overlay has the size of the canvas, so its centre is at
  \<open>(left + CANVAS_WIDTH / 2, top + CANVAS_HEIGHT / 2)\<close>. With the pointer at \<open>(100, 100)\<close> the
  handler requests \<open>left = 74\<close> and \<open>top = 78\<close>: the centre is \<open>(106, 110)\<close>, which is not
  the pointer moved by half the overlay minus half the cursor, \<open>(26, 22)\<close>.
\<close>

theorem mouseMovementHandler_centre_counterexample:
  "mouseCanvas (mouseMovementHandler new_Mousygons \<lparr>pageX = 100, pageY = 100\<rparr>)
     = Some (Some \<lparr>css_left = 74, css_top = 78, css_position = ''absolute'',
                   css_pointerEvents = ''none''\<rparr>)
   \<and> (74 + CANVAS_WIDTH / 2) - 100 \<noteq> CANVAS_WIDTH / 2 - MOUSE_WIDTH / 2
   \<and> (78 + CANVAS_HEIGHT / 2) - 100 \<noteq> CANVAS_HEIGHT / 2 - MOUSE_HEIGHT / 2"
  by (simp add: mouseMovementHandler_def updateMouseCanvas_def new_Mousygons_def
      createMouseCanvas_def CANVAS_WIDTH_def CANVAS_HEIGHT_def MOUSE_WIDTH_def MOUSE_HEIGHT_def)

text \<open>
  Claim C8, as amended. With the overlay element present, the handler stores the event's
  coordinates as the pointer position and requests the placement whose top-left corner is
  the pointer moved back by half the overlay dimensions minus half the cursor dimensions,
  \<open>(x - 26, y - 22)\<close>; the centre of the overlay is then the pointer moved by half the
  cursor width and height, \<open>(x + 6, y + 10)\<close>, below and to the right of it. The handler
  makes no call on the drawing context.
\<close>

theorem mouseMovementHandler_placement:
  assumes "mouseCanvas this \<noteq> None"
  shows "mousePosition (mouseMovementHandler this event)
           = \<lparr>mouse_x = pageX event, mouse_y = pageY event\<rparr>
         \<and> (\<exists>c. mouseCanvas (mouseMovementHandler this event) = Some (Some c)
              \<and> css_left c = pageX event - (CANVAS_WIDTH / 2 - MOUSE_WIDTH / 2)
              \<and> css_top c = pageY event - (CANVAS_HEIGHT / 2 - MOUSE_HEIGHT / 2)
              \<and> (css_left c + CANVAS_WIDTH / 2) - pageX event = MOUSE_WIDTH / 2
              \<and> (css_top c + CANVAS_HEIGHT / 2) - pageY event = MOUSE_HEIGHT / 2
              \<and> css_position c = ''absolute'' \<and> css_pointerEvents c = ''none'')
         \<and> canvas (mouseMovementHandler this event) = canvas this"
  using assms
  by (auto simp: mouseMovementHandler_def updateMouseCanvas_def split: option.splits)

theorem mouseMovementHandler_placement_witness:
  "mouseCanvas new_Mousygons \<noteq> None
   \<and> mousePosition (mouseMovementHandler new_Mousygons \<lparr>pageX = 100, pageY = 100\<rparr>)
       = \<lparr>mouse_x = 100, mouse_y = 100\<rparr>
   \<and> mouseCanvas (mouseMovementHandler new_Mousygons \<lparr>pageX = 100, pageY = 100\<rparr>)
       = Some (Some \<lparr>css_left = 74, css_top = 78, css_position = ''absolute'',
                     css_pointerEvents = ''none''\<rparr>)
   \<and> canvas (mouseMovementHandler new_Mousygons \<lparr>pageX = 100, pageY = 100\<rparr>) = []"
proof -
  have h: "mouseCanvas new_Mousygons \<noteq> None"
    by (simp add: new_Mousygons_def updateMouseCanvas_def createMouseCanvas_def)
  have c: "canvas new_Mousygons = []"
    by (simp add: new_Mousygons_def updateMouseCanvas_def createMouseCanvas_def)
  from mouseMovementHandler_placement [OF h, of "\<lparr>pageX = 100, pageY = 100\<rparr>"] h c
  show ?thesis
    by (auto simp: CANVAS_WIDTH_def CANVAS_HEIGHT_def MOUSE_WIDTH_def MOUSE_HEIGHT_def)
qed

subsection \<open>The placement search\<close>

lemma createPoint_loop_accepts:
  "createPoint_loop False this rs = Some (p, rs') \<Longrightarrow>
     \<exists>r1 r2 r3 r4. r1 \<in> set rs \<and> r2 \<in> set rs \<and> r3 \<in> set rs \<and> r4 \<in> set rs \<and>
       p = new_Point (randomIntBetween r2 (randomIntBetween r1 2 4)
                        (CANVAS_WIDTH - randomIntBetween r1 2 4 / 2))
                     (randomIntBetween r3 (randomIntBetween r1 2 4)
                        (CANVAS_HEIGHT - randomIntBetween r1 2 4 / 2))
                     (randomIntBetween r1 2 4)
                     (randomFloatBetween r4 FADE_MIN FADE_MAX) \<and>
       \<not> positionConflict (points this) (Point_x p) (Point_y p) (dimensions p)"
proof (induction rs arbitrary: p rs' rule: length_induct)
  case (1 rs)
  from "1.prems" obtain r1 r2 r3 rest where rs: "rs = r1 # r2 # r3 # rest"
    by (subst (asm) createPoint_loop.simps) (auto split: list.splits)
  define dims where "dims = randomIntBetween r1 2 4"
  define X where "X = randomIntBetween r2 dims (CANVAS_WIDTH - (dims / 2))"
  define Y where "Y = randomIntBetween r3 dims (CANVAS_HEIGHT - (dims / 2))"
  show ?case
  proof (cases "positionConflict (points this) X Y dims")
    case True
    with "1.prems" rs have "createPoint_loop False this rest = Some (p, rs')"
      by (subst (asm) createPoint_loop.simps) (simp add: Let_def dims_def X_def Y_def)
    moreover have "length rest < length rs" using rs by simp
    ultimately have "\<exists>r1 r2 r3 r4.
       r1 \<in> set rest \<and> r2 \<in> set rest \<and> r3 \<in> set rest \<and> r4 \<in> set rest \<and>
       p = new_Point (randomIntBetween r2 (randomIntBetween r1 2 4)
                        (CANVAS_WIDTH - randomIntBetween r1 2 4 / 2))
                     (randomIntBetween r3 (randomIntBetween r1 2 4)
                        (CANVAS_HEIGHT - randomIntBetween r1 2 4 / 2))
                     (randomIntBetween r1 2 4)
                     (randomFloatBetween r4 FADE_MIN FADE_MAX) \<and>
       \<not> positionConflict (points this) (Point_x p) (Point_y p) (dimensions p)"
      using "1.IH" by blast
    then show ?thesis using rs by auto
  next
    case False
    with "1.prems" rs obtain r4 where "rest = r4 # rs'"
      and "p = new_Point X Y dims (randomFloatBetween r4 FADE_MIN FADE_MAX)"
      by (subst (asm) createPoint_loop.simps)
        (auto simp: Let_def dims_def X_def Y_def split: list.splits)
    with False rs show ?thesis
      unfolding dims_def X_def Y_def
      by (intro exI [of _ r1] exI [of _ r2] exI [of _ r3] exI [of _ r4])
        (simp add: new_Point_def)
  qed
qed

lemma positionConflict_iff:
  "positionConflict pts x y d \<longleftrightarrow> (\<exists>q \<in> set pts. distanceToCoords q x y \<le> d * 6)"
  by (induction pts) auto

lemma createPoint_no_conflict:
  assumes "createPoint this rs = Some (p, rs')"
  shows "\<forall>q \<in> set (points this).
           distanceToCoords q (Point_x p) (Point_y p) > dimensions p * 6"
  using createPoint_loop_accepts [of this rs p rs'] assms
  by (auto simp: createPoint_def positionConflict_iff not_le)

text \<open>
  What holds of every point that \<^verbatim>\<open>createPoint\<close> returns, with the random values binary64
  values of \<open>[0, 1)\<close>, that is between 0 and \<open>1 - 1 / 2 ^ 53\<close>: it is the point built in the
  accepting branch, never the \<^verbatim>\<open>new Point(0, 0, 0, 0)\<close> after the loop; its fade value is 0, it
  is not satisfied, its fade increment is at least 0.25 and below 1.75, and its size is one
  of 2, 3, 4 and 5.
\<close>

lemma createPoint_accepting_branch:
  assumes "\<forall>r \<in> set rs. 0 \<le> r \<and> r \<le> 1 - 1 / 2 ^ 53"
    and "createPoint this rs = Some (p, rs')"
  shows "dimensions p \<in> {2, 3, 4, 5} \<and> alpha p = 0 \<and> \<not> satisfied p
         \<and> 0.25 \<le> alphaSpeed p \<and> alphaSpeed p < 1.75
         \<and> p \<noteq> new_Point 0 0 0 0
         \<and> \<not> positionConflict (points this) (Point_x p) (Point_y p) (dimensions p)"
proof -
  from assms(2) obtain r1 r2 r3 r4 where
    r: "r1 \<in> set rs" "r4 \<in> set rs" and
    p: "p = new_Point (randomIntBetween r2 (randomIntBetween r1 2 4)
                        (CANVAS_WIDTH - randomIntBetween r1 2 4 / 2))
                     (randomIntBetween r3 (randomIntBetween r1 2 4)
                        (CANVAS_HEIGHT - randomIntBetween r1 2 4 / 2))
                     (randomIntBetween r1 2 4)
                     (randomFloatBetween r4 FADE_MIN FADE_MAX)" and
    c: "\<not> positionConflict (points this) (Point_x p) (Point_y p) (dimensions p)"
    using createPoint_loop_accepts [of this rs p rs'] by (auto simp: createPoint_def)
  from r assms(1) have r1: "0 \<le> r1" "r1 \<le> 1 - 1 / 2 ^ 53"
    and r4: "0 \<le> r4" "r4 \<le> 1 - 1 / 2 ^ 53" by auto
  have "r1 < 1" using r1(2) by (rule order_le_less_trans) simp
  then have d: "dimensions p \<in> {2, 3, 4, 5}"
    using randomIntBetween_2_5 [OF r1(1)] p by (simp add: new_Point_def)
  have s: "0.25 \<le> alphaSpeed p \<and> alphaSpeed p < 1.75"
    using randomFloatBetween_range [OF r4] p
    by (simp add: new_Point_def FADE_MIN_def FADE_MAX_def)
  have a: "alpha p = 0 \<and> \<not> satisfied p" using p by (simp add: new_Point_def)
  have n: "p \<noteq> new_Point 0 0 0 0"
  proof
    assume "p = new_Point 0 0 0 0"
    then have "dimensions p = 0" by (simp add: new_Point_def)
    with d show False by simp
  qed
  from d s a n c show ?thesis by simp
qed

text \<open>
  Claim C10, evaluated where the code departs from it. With the random value
  \<open>1 - 1 / 2 ^ 53\<close> for the size, \<^verbatim>\<open>randomIntBetween(2, 4)\<close> is 5, and with no active point
  the accepting branch returns a point of size 5 at \<open>(33, 33)\<close>.
\<close>

theorem createPoint_returns_size_five:
  "createPoint new_Mousygons [1 - 1 / 2 ^ 53, 1 / 2, 1 / 2, 1 / 2]
     = Some (new_Point 33 33 5 1, [])
   \<and> dimensions (new_Point 33 33 5 1) \<notin> {2, 3, 4}
   \<and> new_Point 33 33 5 1 \<noteq> new_Point 0 0 0 0"
proof -
  have t: "randomIntBetween (9007199254740991 / 9007199254740992) 2 4 = 5"
    using randomIntBetween_top by simp
  show ?thesis
    by (simp add: createPoint_def createPoint_loop.simps new_Mousygons_def
        updateMouseCanvas_def createMouseCanvas_def t randomIntBetween_away
        randomFloatBetween_def fl_exact20 CANVAS_WIDTH_def CANVAS_HEIGHT_def FADE_MIN_def
        FADE_MAX_def new_Point_def Let_def)
qed

subsection \<open>The size of the active collection\<close>

lemma fillPoints_full:
  "MAX_POINTS_ALIVE \<le> length (points this) \<Longrightarrow> fillPoints this rs = Some (this, rs)"
  by (subst fillPoints.simps) simp

lemma fillPoints_appends:
  "fillPoints this rs = Some (this', rs') \<Longrightarrow>
     (\<exists>new. points this' = points this @ new)
     \<and> length (points this') = max MAX_POINTS_ALIVE (length (points this))
     \<and> canvas this' = canvas this \<and> mousePosition this' = mousePosition this
     \<and> mouseCanvas this' = mouseCanvas this"
proof (induction this rs rule: fillPoints.induct)
  case (1 this rs)
  show ?case
  proof (cases "length (points this) < MAX_POINTS_ALIVE")
    case False
    with "1.prems" have "this' = this"
      by (subst (asm) fillPoints.simps) simp
    with False show ?thesis by simp
  next
    case True
    with "1.prems" obtain point rs1 where
      c: "createPoint this rs = Some (point, rs1)" and
      f: "fillPoints (this\<lparr>points := points this @ [point]\<rparr>) rs1 = Some (this', rs')"
      by (subst (asm) fillPoints.simps) (auto split: option.splits)
    from "1.IH" [OF True c refl f] True show ?thesis by auto
  qed
qed

lemma updatePoints_loop_length:
  "length (updatePoints_loop i pts) \<le> length pts"
proof (induction i pts rule: updatePoints_loop.induct)
  case (1 i pts)
  show ?case
  proof (cases "i < length pts")
    case False
    then show ?thesis by (subst updatePoints_loop.simps) simp
  next
    case True
    let ?point = "Point_update (pts ! i)"
    let ?pts1 = "pts[i := ?point]"
    show ?thesis
    proof (cases "isSatisfied ?point")
      case sat: True
      have "length (updatePoints_loop (Suc i) (splice1 i ?pts1)) \<le> length (splice1 i ?pts1)"
        using "1.IH"(1) [OF True refl refl sat] .
      also have "\<dots> \<le> length pts" by (simp add: splice1_def)
      finally show ?thesis using True sat
        by (subst updatePoints_loop.simps) (simp add: Let_def)
    next
      case unsat: False
      have "length (updatePoints_loop (Suc i) ?pts1) \<le> length ?pts1"
        using "1.IH"(2) [OF True refl refl unsat] .
      then show ?thesis using True unsat
        by (subst updatePoints_loop.simps) (simp add: Let_def)
    qed
  qed
qed

lemma updatePoints_length: "length (points (updatePoints this)) \<le> length (points this)"
  by (simp add: updatePoints_def updatePoints_loop_length)

lemma drawPoints_points: "drawPoints this = Some this' \<Longrightarrow> points this' = points this"
  by (auto simp: drawPoints_def split: option.splits)

lemma clearCanvas_points: "points (clearCanvas this) = points this"
  by (simp add: clearCanvas_def)

text \<open>Drawing always returns: the colour string of the source matches the pattern.\<close>

lemma drawPoint_Some:
  "drawPoint point =
     Some [FillStyle 0 191 155 (fl (getAlpha point / 255)), BeginPath,
           FillRect (fl (getX point - fl (getDimensions point / 2)))
                    (fl (getY point - fl (getDimensions point / 2)))
                    (getDimensions point) (getDimensions point),
           Stroke]"
  by (simp add: drawPoint_def hexToRgb_def regex_exec_def hexGroups_def hexClass_def
      parseInt16_def hexDigitValue_def)

lemma drawPoints_loop_returns: "\<exists>ctx'. drawPoints_loop pts ctx = Some ctx'"
  by (induction pts arbitrary: ctx) (simp_all add: drawPoint_Some)

lemma drawPoints_returns: "\<exists>this'. drawPoints this = Some this'"
  using drawPoints_loop_returns [of "points this" "canvas this"]
  by (auto simp: drawPoints_def)

lemma Mousygons_update_length:
  assumes "Mousygons_update this rs = Some (this', rs')"
  shows "length (points this') \<le> max MAX_POINTS_ALIVE (length (points this))"
proof -
  from assms obtain this1 where
    f: "fillPoints (clearCanvas this) rs = Some (this1, rs')" and
    d: "drawPoints (updatePoints this1) = Some this'"
    by (auto simp: Mousygons_update_def split: option.splits)
  have "length (points this') = length (points (updatePoints this1))"
    using drawPoints_points [OF d] by simp
  also have "\<dots> \<le> length (points this1)" by (rule updatePoints_length)
  also have "\<dots> = max MAX_POINTS_ALIVE (length (points this))"
    using fillPoints_appends [OF f] by (simp add: clearCanvas_points)
  finally show ?thesis .
qed

lemma start_length:
  "start n this rs = Some (this', rs') \<Longrightarrow> length (points this) \<le> MAX_POINTS_ALIVE \<Longrightarrow>
     length (points this') \<le> MAX_POINTS_ALIVE"
proof (induction n arbitrary: this rs)
  case 0
  then show ?case by simp
next
  case (Suc n)
  from Suc.prems(1) obtain this1 rs1 where
    u: "Mousygons_update this rs = Some (this1, rs1)" and s: "start n this1 rs1 = Some (this', rs')"
    by (auto split: option.splits)
  from Mousygons_update_length [OF u] Suc.prems(2)
  have "length (points this1) \<le> MAX_POINTS_ALIVE" by simp
  with Suc.IH [OF s] show ?case by simp
qed

subsection \<open>The separation of the active points\<close>

text \<open>
  The rounded square root of an integer is compared with an integer as the exact one is.
\<close>

lemma fl_sqrt_le_iff:
  assumes s: "of_int \<lfloor>s\<rfloor> = s" "0 \<le> s" and d: "of_int \<lfloor>d\<rfloor> = d" "0 \<le> d" "d < 2 ^ 20"
  shows "fl (sqrt s) \<le> d \<longleftrightarrow> s \<le> d * d"
proof
  assume "s \<le> d * d"
  then have "sqrt s \<le> d" using d(2) by (intro real_le_lsqrt) (simp_all add: power2_eq_square)
  then have "fl (sqrt s) \<le> fl d" using s(2) by (intro fl_mono) simp_all
  moreover have "fl d = d" using d by (intro fl_exact [where k = 0]) simp_all
  ultimately show "fl (sqrt s) \<le> d" by simp
next
  assume le: "fl (sqrt s) \<le> d"
  show "s \<le> d * d"
  proof (rule ccontr)
    assume "\<not> s \<le> d * d"
    then have "d * d < s" by simp
    then have "real_of_int \<lfloor>d\<rfloor> * real_of_int \<lfloor>d\<rfloor> < real_of_int \<lfloor>s\<rfloor>"
      unfolding s(1) d(1) .
    then have "real_of_int (\<lfloor>d\<rfloor> * \<lfloor>d\<rfloor>) < real_of_int \<lfloor>s\<rfloor>"
      by (simp only: of_int_mult)
    then have "\<lfloor>d\<rfloor> * \<lfloor>d\<rfloor> < \<lfloor>s\<rfloor>" by (simp only: of_int_less_iff)
    then have "\<lfloor>d\<rfloor> * \<lfloor>d\<rfloor> + 1 \<le> \<lfloor>s\<rfloor>" by simp
    then have "real_of_int (\<lfloor>d\<rfloor> * \<lfloor>d\<rfloor> + 1) \<le> real_of_int \<lfloor>s\<rfloor>"
      by (simp only: of_int_le_iff)
    then have "real_of_int \<lfloor>d\<rfloor> * real_of_int \<lfloor>d\<rfloor> + 1 \<le> real_of_int \<lfloor>s\<rfloor>"
      by (simp only: of_int_add of_int_mult of_int_1)
    then have s1: "d * d + 1 \<le> s" unfolding s(1) d(1) .
    have "\<lfloor>d\<rfloor> < 2 ^ 20" using d(3) by (simp add: floor_less_iff)
    then have "\<lfloor>d\<rfloor> \<le> 2 ^ 20 - 1" by simp
    then have "real_of_int \<lfloor>d\<rfloor> \<le> real_of_int (2 ^ 20 - 1)" by (simp only: of_int_le_iff)
    then have "real_of_int \<lfloor>d\<rfloor> \<le> 2 ^ 20 - 1" by simp
    then have d1: "d \<le> 2 ^ 20 - 1" unfolding d(1) .
    define g where "g = d + 1 / 2 ^ 21"
    have "g * g = d * d + d / 2 ^ 20 + 1 / 2 ^ 42" by (simp add: g_def algebra_simps)
    also have "\<dots> \<le> d * d + 1" using d1 by simp
    finally have "g\<^sup>2 \<le> s" using s1 by (simp add: power2_eq_square)
    then have "g \<le> sqrt s" by (rule real_le_rsqrt)
    moreover have g0: "0 \<le> g" using d(2) by (simp add: g_def)
    ultimately have "fl g \<le> fl (sqrt s)" by (intro fl_mono)
    moreover have "fl g = g"
    proof (rule fl_exact [where k = 21])
      have "real_of_int (\<lfloor>d\<rfloor> * 2 ^ 21 + 1) = real_of_int \<lfloor>d\<rfloor> * 2 ^ 21 + 1" by simp
      also have "\<dots> = g * 2 ^ 21" unfolding d(1) by (simp add: g_def algebra_simps)
      finally have e: "real_of_int (\<lfloor>d\<rfloor> * 2 ^ 21 + 1) = g * 2 ^ 21" .
      show "real_of_int \<lfloor>g * 2 ^ 21\<rfloor> = g * 2 ^ 21"
        unfolding e [symmetric] by (simp only: floor_of_int)
      show "\<bar>g\<bar> * 2 ^ 21 < 2 ^ 53" using g0 d1 by (simp add: g_def)
    qed simp
    ultimately have "g \<le> d" using le by linarith
    then show False by (simp add: g_def)
  qed
qed

text \<open>
  On integer coordinates the differences, the squares and their sum are exact, and only the
  square root is rounded.
\<close>

lemma distanceToCoords_le_iff:
  assumes "of_int \<lfloor>Point_x p - x\<rfloor> = Point_x p - x" and "\<bar>Point_x p - x\<bar> \<le> 2 ^ 20"
    and "of_int \<lfloor>Point_y p - y\<rfloor> = Point_y p - y" and "\<bar>Point_y p - y\<bar> \<le> 2 ^ 20"
    and "of_int \<lfloor>d\<rfloor> = d" and "0 \<le> d" and "d < 2 ^ 20"
  shows "distanceToCoords p x y \<le> d \<longleftrightarrow>
     (Point_x p - x) * (Point_x p - x) + (Point_y p - y) * (Point_y p - y) \<le> d * d"
proof -
  define i where "i = \<lfloor>Point_x p - x\<rfloor>"
  define j where "j = \<lfloor>Point_y p - y\<rfloor>"
  have i: "Point_x p - x = of_int i" and j: "Point_y p - y = of_int j"
    unfolding i_def j_def assms(1) assms(3) by (rule refl)+
  have "real_of_int \<bar>i\<bar> \<le> real_of_int (2 ^ 20)" "real_of_int \<bar>j\<bar> \<le> real_of_int (2 ^ 20)"
    using assms(2) assms(4) unfolding i j by simp_all
  then have b: "\<bar>i\<bar> \<le> 2 ^ 20" "\<bar>j\<bar> \<le> 2 ^ 20" by (simp_all only: of_int_le_iff)
  have "\<bar>i\<bar> < 2 ^ 53" "\<bar>j\<bar> < 2 ^ 53" using b by simp_all
  then have e: "fl (of_int i) = of_int i" "fl (of_int j) = of_int j"
    by (simp_all only: fl_of_int)
  have s: "distanceToCoords p x y = fl (sqrt (of_int (i * i + j * j)))"
    unfolding distanceToCoords_def Let_def i j e fl_squares_of_int [OF b] ..
  have "fl (sqrt (of_int (i * i + j * j))) \<le> d \<longleftrightarrow> real_of_int (i * i + j * j) \<le> d * d"
    using assms(5-7) by (intro fl_sqrt_le_iff) simp_all
  then show ?thesis unfolding s i j by simp
qed

lemma distanceTo_swap:
  "distanceTo p q = distanceToCoords q (Point_x p) (Point_y p)"
proof -
  have "fl (a - b) * fl (a - b) = fl (b - a) * fl (b - a)" for a b :: real
    using fl_minus [of "b - a"] by simp
  then show ?thesis by (simp add: distanceTo_def distanceToCoords_def Let_def)
qed

lemma Point_update_geometry [simp]:
  "Point_x (Point_update p) = Point_x p"
  "Point_y (Point_update p) = Point_y p"
  "dimensions (Point_update p) = dimensions p"
  by (simp_all add: Point_update_def Let_def)

lemma distanceToCoords_Point_update [simp]:
  "distanceToCoords (Point_update p) x y = distanceToCoords p x y"
  by (simp add: distanceToCoords_def)

lemma separated_nth:
  "separated pts \<longleftrightarrow>
     (\<forall>i j. i < j \<longrightarrow> j < length pts \<longrightarrow>
        distanceToCoords (pts ! i) (Point_x (pts ! j)) (Point_y (pts ! j))
          > dimensions (pts ! j) * 6)"
  by (simp add: separated_def sorted_wrt_iff_nth_less)

lemma separated_Nil: "separated []"
  by (simp add: separated_def)

lemma separated_snoc:
  assumes "separated pts"
    and "\<forall>q \<in> set pts. distanceToCoords q (Point_x p) (Point_y p) > dimensions p * 6"
  shows "separated (pts @ [p])"
  using assms by (simp add: separated_def sorted_wrt_append)

lemma separated_list_update:
  assumes "separated pts"
  shows "separated (pts[i := Point_update (pts ! i)])"
  unfolding separated_nth
proof (intro allI impI)
  fix a b
  let ?pts1 = "pts[i := Point_update (pts ! i)]"
  assume ab: "a < b" and b: "b < length ?pts1"
  then have lt: "a < length pts" "b < length pts" by simp_all
  have g: "Point_x (?pts1 ! k) = Point_x (pts ! k) \<and> Point_y (?pts1 ! k) = Point_y (pts ! k)
           \<and> dimensions (?pts1 ! k) = dimensions (pts ! k)" if "k < length pts" for k
    using that by (cases "k = i") simp_all
  have "distanceToCoords (?pts1 ! a) x y = distanceToCoords (pts ! a) x y" for x y
    using g [OF lt(1)] by (simp add: distanceToCoords_def)
  moreover have "distanceToCoords (pts ! a) (Point_x (pts ! b)) (Point_y (pts ! b))
      > dimensions (pts ! b) * 6"
    using assms ab lt by (simp add: separated_nth)
  ultimately show "distanceToCoords (?pts1 ! a) (Point_x (?pts1 ! b)) (Point_y (?pts1 ! b))
      > dimensions (?pts1 ! b) * 6"
    using g [OF lt(2)] by simp
qed

lemma separated_splice1:
  assumes "separated pts"
  shows "separated (splice1 i pts)"
proof -
  let ?R = "\<lambda>q p. distanceToCoords q (Point_x p) (Point_y p) > dimensions p * 6"
  from assms have s: "sorted_wrt ?R (take i pts @ drop i pts)"
    by (simp add: separated_def)
  then have cross: "\<forall>x \<in> set (take i pts). \<forall>y \<in> set (drop i pts). ?R x y"
    unfolding sorted_wrt_append by blast
  have "set (drop (Suc i) pts) \<subseteq> set (drop i pts)"
    by (rule set_drop_subset_set_drop) simp
  with cross have "\<forall>x \<in> set (take i pts). \<forall>y \<in> set (drop (Suc i) pts). ?R x y"
    by blast
  moreover from assms have "sorted_wrt ?R (take i pts)" "sorted_wrt ?R (drop (Suc i) pts)"
    by (simp_all add: separated_def)
  ultimately show ?thesis
    by (simp add: separated_def splice1_def sorted_wrt_append)
qed

lemma updatePoints_loop_separated:
  "separated pts \<Longrightarrow> separated (updatePoints_loop i pts)"
proof (induction i pts rule: updatePoints_loop.induct)
  case (1 i pts)
  show ?case
  proof (cases "i < length pts")
    case False
    with "1.prems" show ?thesis by (subst updatePoints_loop.simps) simp
  next
    case True
    let ?point = "Point_update (pts ! i)"
    let ?pts1 = "pts[i := ?point]"
    have s1: "separated ?pts1" using "1.prems" by (rule separated_list_update)
    show ?thesis
    proof (cases "isSatisfied ?point")
      case sat: True
      have "separated (updatePoints_loop (Suc i) (splice1 i ?pts1))"
        using "1.IH"(1) [OF True refl refl sat] separated_splice1 [OF s1] .
      then show ?thesis using True sat
        by (subst updatePoints_loop.simps) (simp add: Let_def)
    next
      case unsat: False
      have "separated (updatePoints_loop (Suc i) ?pts1)"
        using "1.IH"(2) [OF True refl refl unsat] s1 .
      then show ?thesis using True unsat
        by (subst updatePoints_loop.simps) (simp add: Let_def)
    qed
  qed
qed

lemma fillPoints_separated:
  "fillPoints this rs = Some (this', rs') \<Longrightarrow> separated (points this) \<Longrightarrow>
     separated (points this')"
proof (induction this rs rule: fillPoints.induct)
  case (1 this rs)
  show ?case
  proof (cases "length (points this) < MAX_POINTS_ALIVE")
    case False
    with "1.prems" show ?thesis
      by (subst (asm) fillPoints.simps) simp
  next
    case True
    with "1.prems"(1) obtain point rs1 where
      c: "createPoint this rs = Some (point, rs1)" and
      f: "fillPoints (this\<lparr>points := points this @ [point]\<rparr>) rs1 = Some (this', rs')"
      by (subst (asm) fillPoints.simps) (auto split: option.splits)
    have "separated (points this @ [point])"
      using "1.prems"(2) createPoint_no_conflict [OF c] by (rule separated_snoc)
    with "1.IH" [OF True c refl f] show ?thesis by simp
  qed
qed

lemma Mousygons_update_separated:
  assumes "Mousygons_update this rs = Some (this', rs')" and "separated (points this)"
  shows "separated (points this')"
proof -
  from assms(1) obtain this1 where
    f: "fillPoints (clearCanvas this) rs = Some (this1, rs')" and
    d: "drawPoints (updatePoints this1) = Some this'"
    by (auto simp: Mousygons_update_def split: option.splits)
  have "separated (points this1)"
    using fillPoints_separated [OF f] assms(2) by (simp add: clearCanvas_points)
  then have "separated (points (updatePoints this1))"
    by (simp add: updatePoints_def updatePoints_loop_separated)
  then show ?thesis using drawPoints_points [OF d] by simp
qed

lemma start_separated:
  "start n this rs = Some (this', rs') \<Longrightarrow> separated (points this) \<Longrightarrow>
     separated (points this')"
proof (induction n arbitrary: this rs)
  case 0
  then show ?case by simp
next
  case (Suc n)
  from Suc.prems(1) obtain this1 rs1 where
    u: "Mousygons_update this rs = Some (this1, rs1)" and s: "start n this1 rs1 = Some (this', rs')"
    by (auto split: option.splits)
  show ?case
    using Suc.IH [OF s Mousygons_update_separated [OF u Suc.prems(2)]] .
qed

lemma new_Mousygons_points: "points new_Mousygons = []"
  by (simp add: new_Mousygons_def updateMouseCanvas_def createMouseCanvas_def)

lemmas run_simps =
  createPoint_def createPoint_loop.simps fillPoints.simps new_Mousygons_def
  updateMouseCanvas_def createMouseCanvas_def clearCanvas_def randomIntBetween_away
  randomIntBetween_zero randomFloatBetween_def fl_exact20 CANVAS_WIDTH_def CANVAS_HEIGHT_def
  FADE_MIN_def FADE_MAX_def MAX_POINTS_ALIVE_def new_Point_def distanceToCoords_le_iff Let_def

text \<open>
  Claim C2 asks, for every two active points \<open>p\<close> and \<open>q\<close>, for a distance greater than six
  times the size of \<open>p\<close>. In this run of Fill from the state the constructor builds, the
  first point admitted has size 4 and is at \<open>(4, 4)\<close>, the second has size 2 and is at
  \<open>(4, 17)\<close>: the search accepts it since \<open>13 > 2 * 6\<close>. Both are active after Fill, and
  the distance from the first to the second is not greater than six times the size of the
  first, \<open>24\<close>.
\<close>

theorem fillPoints_pair_counterexample:
  "fillPoints new_Mousygons
     [0.875, 0, 0, 0.5,  0, 0.0390625, 0.25, 0.5,  0, 0.65625, 0, 0.5,
      0, 0.96875, 0, 0.5,  0, 0.65625, 0.328125, 0.5,  0, 0.96875, 0.328125, 0.5]
   = Some (new_Mousygons\<lparr>points :=
       [new_Point 4 4 4 1, new_Point 4 17 2 1, new_Point 42 2 2 1,
        new_Point 62 2 2 1, new_Point 42 22 2 1, new_Point 62 22 2 1]\<rparr>, [])
   \<and> new_Point 4 4 4 1 \<noteq> new_Point 4 17 2 1
   \<and> \<not> (distanceToCoords (new_Point 4 4 4 1) (Point_x (new_Point 4 17 2 1))
            (Point_y (new_Point 4 17 2 1)) > dimensions (new_Point 4 4 4 1) * 6)"
proof -
  have f: "fillPoints new_Mousygons
     [0.875, 0, 0, 0.5,  0, 0.0390625, 0.25, 0.5,  0, 0.65625, 0, 0.5,
      0, 0.96875, 0, 0.5,  0, 0.65625, 0.328125, 0.5,  0, 0.96875, 0.328125, 0.5]
   = Some (new_Mousygons\<lparr>points :=
       [new_Point 4 4 4 1, new_Point 4 17 2 1, new_Point 42 2 2 1,
        new_Point 62 2 2 1, new_Point 42 22 2 1, new_Point 62 22 2 1]\<rparr>, [])"
    by (simp add: run_simps)
  have n: "new_Point 4 4 4 1 \<noteq> new_Point 4 17 2 1"
    by (simp add: new_Point_def)
  have "distanceToCoords (new_Point 4 4 4 1) (Point_x (new_Point 4 17 2 1))
            (Point_y (new_Point 4 17 2 1)) \<le> dimensions (new_Point 4 4 4 1) * 6"
    by (simp add: new_Point_def distanceToCoords_le_iff)
  then have d: "\<not> (distanceToCoords (new_Point 4 4 4 1) (Point_x (new_Point 4 17 2 1))
            (Point_y (new_Point 4 17 2 1)) > dimensions (new_Point 4 4 4 1) * 6)"
    by (simp only: not_less)
  from f n d show ?thesis by (intro conjI)
qed

text \<open>
  Claim C2, as amended. Let the collection be separated before Fill: each point is
  farther than six times its own size from every point before it (the empty collection of
  the constructor is, and every tick keeps it so). Then after Fill, for every two active
  points, the distance from the one admitted later to the position of the other is strictly
  greater than six times the size of the one admitted later.
\<close>

theorem fillPoints_keeps_apart:
  assumes "separated (points this)" and "fillPoints this rs = Some (this', rs')"
  shows "(\<forall>j < length (points this'). \<forall>i < j.
            distanceTo (points this' ! j) (points this' ! i)
              > dimensions (points this' ! j) * 6)
         \<and> separated (points new_Mousygons)
         \<and> (\<forall>n rs0 that rs1. start n this rs0 = Some (that, rs1) \<longrightarrow>
              separated (points (clearCanvas that)))"
proof -
  have "separated (points this')"
    using fillPoints_separated [OF assms(2) assms(1)] .
  then have a: "\<forall>j < length (points this'). \<forall>i < j.
      distanceTo (points this' ! j) (points this' ! i) > dimensions (points this' ! j) * 6"
    by (simp add: separated_nth distanceTo_swap)
  have b: "separated (points new_Mousygons)"
    by (simp add: new_Mousygons_points separated_Nil)
  have c: "separated (points (clearCanvas that))" if "start n this rs0 = Some (that, rs1)"
    for n rs0 that rs1
    using start_separated [OF that assms(1)] by (simp add: clearCanvas_points)
  from a b c show ?thesis by blast
qed

theorem fillPoints_keeps_apart_witness:
  "separated (points new_Mousygons)
   \<and> fillPoints new_Mousygons
       [0.875, 0, 0, 0.5,  0, 0.0390625, 0.25, 0.5,  0, 0.65625, 0, 0.5,
        0, 0.96875, 0, 0.5,  0, 0.65625, 0.328125, 0.5,  0, 0.96875, 0.328125, 0.5]
     = Some (new_Mousygons\<lparr>points :=
         [new_Point 4 4 4 1, new_Point 4 17 2 1, new_Point 42 2 2 1,
          new_Point 62 2 2 1, new_Point 42 22 2 1, new_Point 62 22 2 1]\<rparr>, [])
   \<and> distanceTo (new_Point 4 17 2 1) (new_Point 4 4 4 1) > dimensions (new_Point 4 17 2 1) * 6"
proof -
  let ?pts = "[new_Point 4 4 4 1, new_Point 4 17 2 1, new_Point 42 2 2 1,
          new_Point 62 2 2 1, new_Point 42 22 2 1, new_Point 62 22 2 1]"
  have h: "separated (points new_Mousygons)"
    by (simp add: new_Mousygons_points separated_Nil)
  have f: "fillPoints new_Mousygons
       [0.875, 0, 0, 0.5,  0, 0.0390625, 0.25, 0.5,  0, 0.65625, 0, 0.5,
        0, 0.96875, 0, 0.5,  0, 0.65625, 0.328125, 0.5,  0, 0.96875, 0.328125, 0.5]
     = Some (new_Mousygons\<lparr>points := ?pts\<rparr>, [])"
    by (simp add: run_simps)
  from fillPoints_keeps_apart [OF h f]
  have "\<forall>j < length ?pts. \<forall>i < j.
      distanceTo (?pts ! j) (?pts ! i) > dimensions (?pts ! j) * 6"
    by simp
  then have "1 < length ?pts \<longrightarrow> (0::nat) < 1 \<longrightarrow>
      distanceTo (?pts ! 1) (?pts ! 0) > dimensions (?pts ! 1) * 6"
    by blast
  then have "distanceTo (new_Point 4 17 2 1) (new_Point 4 4 4 1)
      > dimensions (new_Point 4 17 2 1) * 6"
    by simp
  with h f show ?thesis by (intro conjI)
qed

text \<open>
  Claim C3. Starting with at most 6 active points, the collection has at most 6 points
  after every tick, hence also when the Fill step of the next tick begins. Fill only
  appends, and it stops at 6 points: with 6 points it changes nothing. The advance-and-evict
  step never makes the collection longer, and clearing and drawing leave it as it is.
\<close>

theorem active_points_at_most_six:
  assumes "length (points this) \<le> 6"
  shows "(\<forall>n rs this' rs'. start n this rs = Some (this', rs') \<longrightarrow> length (points this') \<le> 6)
    \<and> (\<forall>rs this' rs'. Mousygons_update this rs = Some (this', rs') \<longrightarrow>
          length (points this') \<le> 6)
    \<and> (\<forall>rs this' rs'. fillPoints this rs = Some (this', rs') \<longrightarrow>
          (\<exists>new. points this' = points this @ new) \<and> length (points this') = 6)
    \<and> (length (points this) = 6 \<longrightarrow> (\<forall>rs. fillPoints this rs = Some (this, rs)))
    \<and> length (points (updatePoints this)) \<le> length (points this)
    \<and> (\<forall>this'. drawPoints this = Some this' \<longrightarrow> points this' = points this)
    \<and> points (clearCanvas this) = points this"
proof -
  have a: "length (points this') \<le> 6" if "start n this rs = Some (this', rs')" for n rs this' rs'
    using start_length [OF that] assms by (simp add: MAX_POINTS_ALIVE_def)
  have b: "length (points this') \<le> 6" if "Mousygons_update this rs = Some (this', rs')"
    for rs this' rs'
    using Mousygons_update_length [OF that] assms by (simp add: MAX_POINTS_ALIVE_def)
  have c: "(\<exists>new. points this' = points this @ new) \<and> length (points this') = 6"
    if "fillPoints this rs = Some (this', rs')" for rs this' rs'
    using fillPoints_appends [OF that] assms by (simp add: MAX_POINTS_ALIVE_def)
  have d: "fillPoints this rs = Some (this, rs)" if "length (points this) = 6" for rs
    using fillPoints_full [of this rs] that by (simp add: MAX_POINTS_ALIVE_def)
  from a b c d show ?thesis
    using updatePoints_length [of this] drawPoints_points [of this] clearCanvas_points [of this]
    by blast
qed


theorem active_points_at_most_six_witness:
  "length (points new_Mousygons) \<le> 6
   \<and> (\<exists>this'. start 1 new_Mousygons
         [0, 0, 0, 0.5,  0, 0.328125, 0, 0.5,  0, 0.65625, 0, 0.5,
          0, 0.96875, 0, 0.5,  0, 0, 0.328125, 0.5,  0, 0.328125, 0.328125, 0.5]
          = Some (this', [])
        \<and> map alpha (points this') = [1, 1, 1, 1, 1, 1]
        \<and> length (points this') \<le> 6)"
proof -
  let ?rs = "[0, 0, 0, 0.5,  0, 0.328125, 0, 0.5,  0, 0.65625, 0, 0.5,
          0, 0.96875, 0, 0.5,  0, 0, 0.328125, 0.5,  0, 0.328125, 0.328125, 0.5] :: real list"
  have h: "length (points new_Mousygons) \<le> 6"
    by (simp add: new_Mousygons_points)
  have "\<exists>this'. Mousygons_update new_Mousygons ?rs = Some (this', [])
      \<and> map alpha (points this') = [1, 1, 1, 1, 1, 1]"
    by (simp add: Mousygons_update_def run_simps updatePoints_def updatePoints_loop.simps
        Point_update_def ALPHA_THRESHOLD_def isSatisfied_def drawPoints_def drawPoint_def
        hexToRgb_def regex_exec_def hexGroups_def hexClass_def)
  then obtain this' where
    u: "Mousygons_update new_Mousygons ?rs = Some (this', [])" and
    a: "map alpha (points this') = [1, 1, 1, 1, 1, 1]"
    by (elim exE conjE)
  from u have s: "start 1 new_Mousygons ?rs = Some (this', [])" by simp
  from active_points_at_most_six [OF h]
  have "\<forall>n rs this' rs'. start n new_Mousygons rs = Some (this', rs') \<longrightarrow>
      length (points this') \<le> 6"
    by (elim conjE)
  with s have l: "length (points this') \<le> 6" by (elim allE impE)
  show ?thesis
    by (intro conjI exI [of _ this']) (rule h s a l)+
qed

subsection \<open>The advance-and-evict step at a removal\<close>

text \<open>
  What the loop does keep: a collection with no satisfied point has none afterwards, since
  a point is taken out in the round in which it becomes satisfied.
\<close>

lemma splice1_list_update: "splice1 i (pts[i := x]) = splice1 i pts"
  by (simp add: splice1_def)

lemma set_splice1_subset: "set (splice1 i pts) \<subseteq> set pts"
  unfolding splice1_def using set_take_subset [of i pts] set_drop_subset [of "Suc i" pts]
  by auto

lemma updatePoints_loop_unsatisfied:
  "\<forall>p \<in> set pts. \<not> satisfied p \<Longrightarrow> \<forall>p \<in> set (updatePoints_loop i pts). \<not> satisfied p"
proof (induction i pts rule: updatePoints_loop.induct)
  case (1 i pts)
  show ?case
  proof (cases "i < length pts")
    case False
    with "1.prems" show ?thesis by (subst updatePoints_loop.simps) simp
  next
    case True
    let ?point = "Point_update (pts ! i)"
    let ?pts1 = "pts[i := ?point]"
    show ?thesis
    proof (cases "isSatisfied ?point")
      case sat: True
      have "\<forall>p \<in> set (splice1 i ?pts1). \<not> satisfied p"
        using "1.prems" set_splice1_subset [of i pts] by (auto simp: splice1_list_update)
      then have "\<forall>p \<in> set (updatePoints_loop (Suc i) (splice1 i ?pts1)). \<not> satisfied p"
        by (rule "1.IH"(1) [OF True refl refl sat])
      then show ?thesis using True sat
        by (subst updatePoints_loop.simps) (simp add: Let_def)
    next
      case unsat: False
      have "set ?pts1 \<subseteq> insert ?point (set pts)" by (rule set_update_subset_insert)
      with "1.prems" unsat have "\<forall>p \<in> set ?pts1. \<not> satisfied p"
        by (auto simp: isSatisfied_def)
      then have "\<forall>p \<in> set (updatePoints_loop (Suc i) ?pts1). \<not> satisfied p"
        by (rule "1.IH"(2) [OF True refl refl unsat])
      then show ?thesis using True unsat
        by (subst updatePoints_loop.simps) (simp add: Let_def)
    qed
  qed
qed

text \<open>The state of a point that has had \<open>k\<close> updates and has not reached the threshold.\<close>

lemma Point_update_iter_fresh:
  assumes "0 \<le> f" and "of_int \<lfloor>f * 2 ^ 20\<rfloor> = f * 2 ^ 20" and "real k * f < 255"
  shows "(Point_update ^^ k) (new_Point x y d f) = (new_Point x y d f)\<lparr>alpha := real k * f\<rparr>"
  using assms(3)
proof (induction k)
  case 0
  show ?case by (simp add: new_Point_def)
next
  case (Suc k)
  have "real k * f \<le> real (Suc k) * f"
    using assms(1) by (simp add: algebra_simps)
  with Suc.prems have "real k * f < 255" by linarith
  with Suc.IH have ih: "(Point_update ^^ k) (new_Point x y d f)
      = (new_Point x y d f)\<lparr>alpha := real k * f\<rparr>" by simp
  have ex: "fl (real (Suc k) * f) = real (Suc k) * f"
  proof (rule fl_exact [where k = 20])
    have "real_of_int (int (Suc k) * \<lfloor>f * 2 ^ 20\<rfloor>)
        = real (Suc k) * real_of_int \<lfloor>f * 2 ^ 20\<rfloor>" by simp
    also have "\<dots> = real (Suc k) * f * 2 ^ 20" unfolding assms(2) by simp
    finally have e: "real_of_int (int (Suc k) * \<lfloor>f * 2 ^ 20\<rfloor>) = real (Suc k) * f * 2 ^ 20" .
    show "real_of_int \<lfloor>real (Suc k) * f * 2 ^ 20\<rfloor> = real (Suc k) * f * 2 ^ 20"
      unfolding e [symmetric] by (simp only: floor_of_int)
    define v where "v = real (Suc k) * f"
    have "0 \<le> v" "v < 255" using assms(1) Suc.prems by (simp_all add: v_def)
    then have "\<bar>v\<bar> * 2 ^ 20 < 2 ^ 53" by simp
    then show "\<bar>real (Suc k) * f\<bar> * 2 ^ 20 < 2 ^ 53" unfolding v_def .
  qed simp
  have sum: "real k * f + f = real (Suc k) * f" by (simp add: algebra_simps)
  have ex': "fl (real k * f + f) = real k * f + f" using ex unfolding sum .
  have lt: "real k * f + f < 255" using Suc.prems unfolding sum .
  have "Point_update ((new_Point x y d f)\<lparr>alpha := real k * f\<rparr>)
      = (new_Point x y d f)\<lparr>alpha := real k * f + f\<rparr>"
    using lt by (simp add: Point_update_def new_Point_def ALPHA_THRESHOLD_def Let_def ex')
  then have "Point_update ((new_Point x y d f)\<lparr>alpha := real k * f\<rparr>)
      = (new_Point x y d f)\<lparr>alpha := real (Suc k) * f\<rparr>"
    unfolding sum .
  then show ?case unfolding funpow.simps o_apply ih .
qed

text \<open>
  Claim C1, evaluated where the code departs from it. Six points admitted by one Fill with
  the fade increments 1.5, 1, 0.5, 1, 1 and 1 have had 169 updates each, 169 ticks later.
  On the next tick the first point reaches 255 and is taken out at index 0; the second
  point moves to index 0 and the loop goes on at index 1. After the step the second point
  is in the collection with its 169 updates: it has had no update on this tick, while the
  four points after it have had their 170th.
\<close>

theorem updatePoints_skips_point_after_removal:
  "points (updatePoints (new_Mousygons\<lparr>points :=
      [(Point_update ^^ 169) (new_Point 2 2 2 1.5), (Point_update ^^ 169) (new_Point 22 2 2 1),
       (Point_update ^^ 169) (new_Point 42 2 2 0.5), (Point_update ^^ 169) (new_Point 62 2 2 1),
       (Point_update ^^ 169) (new_Point 2 22 2 1),
       (Point_update ^^ 169) (new_Point 22 22 2 1)]\<rparr>))
   = [(Point_update ^^ 169) (new_Point 22 2 2 1),
      (Point_update ^^ 170) (new_Point 42 2 2 0.5), (Point_update ^^ 170) (new_Point 62 2 2 1),
      (Point_update ^^ 170) (new_Point 2 22 2 1), (Point_update ^^ 170) (new_Point 22 22 2 1)]
   \<and> (Point_update ^^ 170) (new_Point 22 2 2 1) \<noteq> (Point_update ^^ 169) (new_Point 22 2 2 1)"
proof -
  have a: "(Point_update ^^ 169) (new_Point x y d 1.5) = (new_Point x y d 1.5)\<lparr>alpha := 253.5\<rparr>"
    for x y d
    using Point_update_iter_fresh [of "1.5" 169 x y d] by simp
  have b: "(Point_update ^^ 169) (new_Point x y d 1) = (new_Point x y d 1)\<lparr>alpha := 169\<rparr>"
    for x y d
    using Point_update_iter_fresh [of 1 169 x y d] by simp
  have c: "(Point_update ^^ 169) (new_Point x y d 0.5) = (new_Point x y d 0.5)\<lparr>alpha := 84.5\<rparr>"
    for x y d
    using Point_update_iter_fresh [of "0.5" 169 x y d] by simp
  have b': "(Point_update ^^ 170) (new_Point x y d 1) = (new_Point x y d 1)\<lparr>alpha := 170\<rparr>"
    for x y d
    using Point_update_iter_fresh [of 1 170 x y d] by simp
  have c': "(Point_update ^^ 170) (new_Point x y d 0.5) = (new_Point x y d 0.5)\<lparr>alpha := 85\<rparr>"
    for x y d
    using Point_update_iter_fresh [of "0.5" 170 x y d] by simp
  show ?thesis
    unfolding a b c b' c'
    by (simp add: updatePoints_def updatePoints_loop.simps new_Point_def Point_update_def
        ALPHA_THRESHOLD_def isSatisfied_def splice1_def Let_def fl_exact20)
qed

subsection \<open>The range of the coordinates\<close>

text \<open>
  The range that the code does keep, with the random values binary64 values of \<open>[0, 1)\<close>:
  the coordinates are integers, at least the size and at most \<open>64 - size / 2 + 1 / 2\<close>; for
  the sizes 2 and 4 they are at most \<open>64 - size / 2\<close>.
\<close>

lemma randomIntBetween_between:
  assumes r: "0 \<le> r" "r \<le> 1 - 1 / 2 ^ 53"
    and w: "fl (fl (mx - mn) + 1) = w" "0 \<le> w"
    and tp: "fl ((1 - 1 / 2 ^ 53) * w) = tp"
    and tq: "fl (tp + mn) = tq"
    and m: "fl mn = mn" "0 \<le> mn"
  shows "of_int \<lfloor>mn\<rfloor> \<le> randomIntBetween r mn mx"
    and "randomIntBetween r mn mx \<le> of_int \<lfloor>tq\<rfloor>"
proof -
  have "0 \<le> r * w" using r(1) w(2) by simp
  moreover have "r * w \<le> (1 - 1 / 2 ^ 53) * w" using r(2) w(2) by (rule mult_right_mono)
  ultimately have p: "0 \<le> fl (r * w)" "fl (r * w) \<le> tp"
    using fl_nonneg [of "r * w"] fl_mono [of "r * w" "(1 - 1 / 2 ^ 53) * w"] tp by simp_all
  have "fl mn \<le> fl (fl (r * w) + mn)" using p(1) m(2) by (intro fl_mono) simp_all
  moreover have "fl (fl (r * w) + mn) \<le> fl (tp + mn)"
    using p m(2) by (intro fl_mono) simp_all
  ultimately have "mn \<le> fl (fl (r * w) + mn)" "fl (fl (r * w) + mn) \<le> tq"
    unfolding m(1) tq by simp_all
  then have "\<lfloor>mn\<rfloor> \<le> \<lfloor>fl (fl (r * w) + mn)\<rfloor>" "\<lfloor>fl (fl (r * w) + mn)\<rfloor> \<le> \<lfloor>tq\<rfloor>"
    by (simp_all add: floor_mono)
  then show "of_int \<lfloor>mn\<rfloor> \<le> randomIntBetween r mn mx"
    and "randomIntBetween r mn mx \<le> of_int \<lfloor>tq\<rfloor>"
    unfolding randomIntBetween_def w(1) by simp_all
qed

lemma randomIntBetween_coordinate:
  assumes r: "0 \<le> r" "r \<le> 1 - 1 / 2 ^ 53" and d: "dims \<in> {2, 3, 4, 5}"
  shows "randomIntBetween r dims (64 - dims / 2) \<in> \<int>"
    and "dims \<le> randomIntBetween r dims (64 - dims / 2)"
    and "randomIntBetween r dims (64 - dims / 2) \<le> 64 - dims / 2 + 1 / 2"
    and "dims = 2 \<or> dims = 4 \<Longrightarrow> randomIntBetween r dims (64 - dims / 2) \<le> 64 - dims / 2"
proof -
  show "randomIntBetween r dims (64 - dims / 2) \<in> \<int>"
    by (simp add: randomIntBetween_def)
  from d consider "dims = 2" | "dims = 3" | "dims = 4" | "dims = 5" by auto
  then have b: "dims \<le> randomIntBetween r dims (64 - dims / 2)
       \<and> randomIntBetween r dims (64 - dims / 2) \<le> 64 - dims / 2 + 1 / 2
       \<and> (dims = 2 \<or> dims = 4 \<longrightarrow> randomIntBetween r dims (64 - dims / 2) \<le> 64 - dims / 2)"
  proof cases
    case 1
    have w: "fl (fl (64 - 2 / 2 - 2) + 1) = 62" by (simp add: fl_exact20)
    have tp: "fl ((1 - 1 / 2 ^ 53) * 62) = 62 - 1 / 2 ^ 47"
      by (simp add: fl_binade [where k = 5] rne_def Let_def)
    have tq: "fl (62 - 1 / 2 ^ 47 + 2) = 64 - 1 / 2 ^ 47"
      by (simp add: fl_exact [where k = 47])
    have m: "fl 2 = 2" by (simp add: fl_exact20)
    have f: "\<lfloor>64 - 1 / 2 ^ 47 :: real\<rfloor> = 63" by simp
    from randomIntBetween_between [OF r w _ tp tq m, unfolded f]
    show ?thesis unfolding 1 by simp
  next
    case 2
    have w: "fl (fl (64 - 3 / 2 - 3) + 1) = 121 / 2" by (simp add: fl_exact20)
    have tp: "fl ((1 - 1 / 2 ^ 53) * (121 / 2)) = 121 / 2 - 1 / 2 ^ 47"
      by (simp add: fl_binade [where k = 5] rne_def Let_def)
    have tq: "fl (121 / 2 - 1 / 2 ^ 47 + 3) = 127 / 2 - 1 / 2 ^ 47"
      by (simp add: fl_exact [where k = 47])
    have m: "fl 3 = 3" by (simp add: fl_exact20)
    have f: "\<lfloor>127 / 2 - 1 / 2 ^ 47 :: real\<rfloor> = 63" by simp
    from randomIntBetween_between [OF r w _ tp tq m, unfolded f]
    show ?thesis unfolding 2 by simp
  next
    case 3
    have w: "fl (fl (64 - 4 / 2 - 4) + 1) = 59" by (simp add: fl_exact20)
    have tp: "fl ((1 - 1 / 2 ^ 53) * 59) = 59 - 1 / 2 ^ 47"
      by (simp add: fl_binade [where k = 5] rne_def Let_def)
    have tq: "fl (59 - 1 / 2 ^ 47 + 4) = 63 - 1 / 2 ^ 47"
      by (simp add: fl_exact [where k = 47])
    have m: "fl 4 = 4" by (simp add: fl_exact20)
    have f: "\<lfloor>63 - 1 / 2 ^ 47 :: real\<rfloor> = 62" by simp
    from randomIntBetween_between [OF r w _ tp tq m, unfolded f]
    show ?thesis unfolding 3 by simp
  next
    case 4
    have w: "fl (fl (64 - 5 / 2 - 5) + 1) = 115 / 2" by (simp add: fl_exact20)
    have tp: "fl ((1 - 1 / 2 ^ 53) * (115 / 2)) = 115 / 2 - 1 / 2 ^ 47"
      by (simp add: fl_binade [where k = 5] rne_def Let_def)
    have tq: "fl (115 / 2 - 1 / 2 ^ 47 + 5) = 125 / 2 - 1 / 2 ^ 47"
      by (simp add: fl_exact [where k = 47])
    have m: "fl 5 = 5" by (simp add: fl_exact20)
    have f: "\<lfloor>125 / 2 - 1 / 2 ^ 47 :: real\<rfloor> = 62" by simp
    from randomIntBetween_between [OF r w _ tp tq m, unfolded f]
    show ?thesis unfolding 4 by simp
  qed
  from b show "dims \<le> randomIntBetween r dims (64 - dims / 2)" by simp
  from b show "randomIntBetween r dims (64 - dims / 2) \<le> 64 - dims / 2 + 1 / 2" by simp
  from b show "dims = 2 \<or> dims = 4 \<Longrightarrow> randomIntBetween r dims (64 - dims / 2) \<le> 64 - dims / 2"
    by simp
qed

lemma createPoint_coordinate_range:
  assumes "\<forall>r \<in> set rs. 0 \<le> r \<and> r \<le> 1 - 1 / 2 ^ 53"
    and "createPoint this rs = Some (p, rs')"
  shows "Point_x p \<in> \<int> \<and> Point_y p \<in> \<int>
    \<and> dimensions p \<le> Point_x p \<and> Point_x p \<le> CANVAS_WIDTH - dimensions p / 2 + 1 / 2
    \<and> dimensions p \<le> Point_y p \<and> Point_y p \<le> CANVAS_HEIGHT - dimensions p / 2 + 1 / 2
    \<and> (dimensions p = 2 \<or> dimensions p = 4 \<longrightarrow> Point_x p \<le> CANVAS_WIDTH - dimensions p / 2
          \<and> Point_y p \<le> CANVAS_HEIGHT - dimensions p / 2)"
proof -
  from assms(2) obtain r1 r2 r3 r4 where
    r: "r1 \<in> set rs" "r2 \<in> set rs" "r3 \<in> set rs" and
    p: "p = new_Point (randomIntBetween r2 (randomIntBetween r1 2 4)
                        (CANVAS_WIDTH - randomIntBetween r1 2 4 / 2))
                     (randomIntBetween r3 (randomIntBetween r1 2 4)
                        (CANVAS_HEIGHT - randomIntBetween r1 2 4 / 2))
                     (randomIntBetween r1 2 4)
                     (randomFloatBetween r4 FADE_MIN FADE_MAX)"
    using createPoint_loop_accepts [of this rs p rs'] by (auto simp: createPoint_def)
  from r assms(1) have r1: "0 \<le> r1" "r1 \<le> 1 - 1 / 2 ^ 53"
    and r2: "0 \<le> r2" "r2 \<le> 1 - 1 / 2 ^ 53"
    and r3: "0 \<le> r3" "r3 \<le> 1 - 1 / 2 ^ 53" by auto
  define dims where "dims = randomIntBetween r1 2 4"
  have "r1 < 1" using r1(2) by (rule order_le_less_trans) simp
  then have d: "dims \<in> {2, 3, 4, 5}" unfolding dims_def by (rule randomIntBetween_2_5 [OF r1(1)])
  have px: "Point_x p = randomIntBetween r2 dims (64 - dims / 2)"
    and py: "Point_y p = randomIntBetween r3 dims (64 - dims / 2)"
    and pd: "dimensions p = dims"
    using p by (simp_all add: new_Point_def dims_def CANVAS_WIDTH_def CANVAS_HEIGHT_def)
  show ?thesis
    unfolding px py pd CANVAS_WIDTH_def CANVAS_HEIGHT_def
    using randomIntBetween_coordinate [OF r2 d] randomIntBetween_coordinate [OF r3 d]
    by blast
qed

text \<open>
  Claim C5, evaluated where the code departs from it. With the size 3 the upper bound
  handed to \<^verbatim>\<open>randomIntBetween\<close> is \<open>64 - 3 / 2 = 62.5\<close>, and for the random value
  \<open>127 / 128\<close> the coordinate is \<open>\<lfloor>127 / 128 * 60.5 + 3\<rfloor> = 63\<close>, above that bound. The
  search accepts the position and returns the point.
\<close>

theorem createPoint_coordinate_above_bound:
  "createPoint new_Mousygons [1/2, 127/128, 1/2, 1/2] = Some (new_Point 63 33 3 1, [])
   \<and> randomIntBetween (127/128) 3 (CANVAS_WIDTH - 3 / 2) = 63
   \<and> \<not> Point_x (new_Point 63 33 3 1) \<le> CANVAS_WIDTH - dimensions (new_Point 63 33 3 1) / 2"
  by (simp add: run_simps)

end
